theory Spec2Isabelle
  imports Main "HOL-Library.Word"
begin

section \<open>Data model of \<^verbatim>\<open>src/ThreadPool.cpp\<close>\<close>

text \<open>
  \<^verbatim>\<open>ThreadPool::size_type\<close> is declared in \<^verbatim>\<open>ThreadPool.h\<close>, which is not among the
  sources.  It is taken to be \<^verbatim>\<open>std::size_t\<close> on a 64-bit platform: the code assigns
  \<^verbatim>\<open>threadTable.size()\<close> to \<^verbatim>\<open>freeThreads\<close> and returns it from \<^verbatim>\<open>getThreads\<close> without a
  cast.  Whatever integer type \<^verbatim>\<open>size_type\<close> is, the difference
  \<^verbatim>\<open>threads - data->threadTable.size()\<close> in \<^verbatim>\<open>setThreads\<close> has the unsigned type of
  \<^verbatim>\<open>std::vector::size()\<close> by the usual arithmetic conversions, so it wraps around.
\<close>

type_synonym size_type = "64 word"

text \<open>The actors that take a lock, the two mutexes, and the effects that are recorded.\<close>

datatype actor = Manager | Caller | Producer

datatype mutex_id = Table_mutex | Queue_mutex

datatype event = Lock actor mutex_id | Unlock actor mutex_id | Push_back

text \<open>
  The exceptions that can leave the pool's functions: \<^verbatim>\<open>std::length_error\<close> of the vector,
  \<^verbatim>\<open>std::bad_alloc\<close> of an allocation, and \<^verbatim>\<open>std::system_error\<close> of a thread that cannot be
  started.
\<close>

datatype error = Length_error | Bad_alloc | System_error

text \<open>
  The manager thread runs \<^verbatim>\<open>ThreadPool::execute\<close>.  Its control points are named after the
  source lines they stand at; the scan of the worker table carries the position of the
  iterator \<^verbatim>\<open>it\<close>.  \<^verbatim>\<open>L240_blocked\<close> and \<^verbatim>\<open>L260_blocked\<close> are the two places where the thread
  sleeps inside \<^verbatim>\<open>signal.wait\<close> with the waited-on lock released.
\<close>

datatype manager_pc =
    L232 | L234 | L236 | L240 | L240_blocked | L243
  | L249 nat | L251 nat | L253 nat | L256 nat | L260 nat | L260_blocked nat | L262 nat
  | L264 | L269 nat | L275 nat | L278 | L280 | Returned

text \<open>
  \<^verbatim>\<open>Thread.h\<close> is not among the sources either.  The pool uses a worker only through its
  constructor and the member functions \<^verbatim>\<open>free\<close>, \<^verbatim>\<open>configure\<close>, \<^verbatim>\<open>start\<close> and \<^verbatim>\<open>destroy\<close>, so the
  worker is a parameter of the model: a type \<open>'w\<close> of worker states and these operations on
  it.  \<open>'t\<close> is the type of a \<^verbatim>\<open>TaskPair\<close>, opaque to the pool.

  What the platform can supply is a parameter as well:
  \<^item> \<open>Thread_create ops k\<close> is the outcome of \<^verbatim>\<open>std::make_unique<Thread>(...)\<close> when the table
    holds \<open>k\<close> workers: \<open>None\<close> when the worker \<open>Thread_new ops\<close> is created, \<open>Some e\<close> when
    the creation throws \<open>e\<close>;
  \<^item> \<open>vector_max_size ops\<close> is \<^verbatim>\<open>threadTable.max_size()\<close>;
  \<^item> \<open>Vector_allocate ops n\<close> says whether the vector's allocator supplies storage for
    \<open>n\<close> elements;
  \<^item> \<open>Structure_allocate ops\<close> says whether \<^verbatim>\<open>std::make_shared\<close> of line 36 succeeds;
  \<^item> \<open>Manager_start ops\<close> is the outcome of starting the manager's \<^verbatim>\<open>std::thread\<close> in
    line 57, \<open>None\<close> when it starts.
\<close>

record ('w, 't) Thread_ops =
  Thread_new :: "'w"
  Thread_create :: "nat \<Rightarrow> error option"
  vector_max_size :: size_type
  Vector_allocate :: "nat \<Rightarrow> bool"
  Structure_allocate :: bool
  Manager_start :: "error option"
  Thread_free :: "'w \<Rightarrow> bool"
  Thread_configure :: "'t \<Rightarrow> 'w \<Rightarrow> bool \<times> 'w"
  Thread_start :: "'w \<Rightarrow> bool \<times> 'w"
  Thread_destroy :: "'w \<Rightarrow> 'w"

text \<open>
  \<^verbatim>\<open>struct ThreadPoolStructure\<close>.  The vector \<^verbatim>\<open>threadTable\<close> is the list of its elements
  together with its \<^verbatim>\<open>capacity()\<close>.  The \<^verbatim>\<open>std::thread\<close> is represented by the control point
  of \<^verbatim>\<open>execute\<close> and by whether it is still joinable; each mutex by its current owner; the
  condition variable by the number of \<^verbatim>\<open>notify_one\<close> calls made on it.  \<open>history\<close> records
  lock, unlock and \<^verbatim>\<open>push_back\<close> events in the order they happen.
\<close>

record ('w, 't) ThreadPoolStructure =
  threadTable :: "'w list"
  table_capacity :: nat
  taskQueue :: "'t list"
  thread :: manager_pc
  joinable :: bool
  mutex :: "actor option"
  queue_mutex :: "actor option"
  signal :: nat
  closed :: bool
  maxThreads :: size_type
  freeThreads :: size_type
  history :: "event list"

section \<open>Primitive operations\<close>

definition lock :: "actor \<Rightarrow> mutex_id \<Rightarrow> ('w, 't) ThreadPoolStructure \<Rightarrow> ('w, 't) ThreadPoolStructure" where
  "lock a m d =
     (case m of
        Table_mutex \<Rightarrow> d\<lparr>mutex := Some a, history := history d @ [Lock a m]\<rparr>
      | Queue_mutex \<Rightarrow> d\<lparr>queue_mutex := Some a, history := history d @ [Lock a m]\<rparr>)"

definition unlock :: "actor \<Rightarrow> mutex_id \<Rightarrow> ('w, 't) ThreadPoolStructure \<Rightarrow> ('w, 't) ThreadPoolStructure" where
  "unlock a m d =
     (case m of
        Table_mutex \<Rightarrow> d\<lparr>mutex := None, history := history d @ [Unlock a m]\<rparr>
      | Queue_mutex \<Rightarrow> d\<lparr>queue_mutex := None, history := history d @ [Unlock a m]\<rparr>)"

definition notify_one :: "('w, 't) ThreadPoolStructure \<Rightarrow> ('w, 't) ThreadPoolStructure" where
  "notify_one d = d\<lparr>signal := signal d + 1\<rparr>"

definition setClosed :: "bool \<Rightarrow> ('w, 't) ThreadPoolStructure \<Rightarrow> ('w, 't) ThreadPoolStructure" where
  "setClosed c d = d\<lparr>closed := c\<rparr>"

definition getClosed :: "('w, 't) ThreadPoolStructure \<Rightarrow> bool" where
  "getClosed d = closed d"

definition vector_size :: "'a list \<Rightarrow> size_type" where
  "vector_size xs = of_nat (length xs)"

text \<open>
  \<^verbatim>\<open>threadTable.reserve(n)\<close>: \<^verbatim>\<open>std::length_error\<close> for a request above \<^verbatim>\<open>max_size()\<close>; nothing
  to do for a request within the capacity; otherwise new storage for \<open>n\<close> elements, or
  \<^verbatim>\<open>std::bad_alloc\<close>.  The first component of the result is the exception thrown, if any.
\<close>

definition reserve ::
  "('w, 't) Thread_ops \<Rightarrow> size_type \<Rightarrow> ('w, 't) ThreadPoolStructure
    \<Rightarrow> error option \<times> ('w, 't) ThreadPoolStructure" where
  "reserve ops n d =
     (if unat n > unat (vector_max_size ops) then (Some Length_error, d)
      else if unat n \<le> table_capacity d then (None, d)
      else if Vector_allocate ops (unat n) then (None, d\<lparr>table_capacity := unat n\<rparr>)
      else (Some Bad_alloc, d))"

text \<open>
  \<^verbatim>\<open>threadTable.push_back(std::make_unique<Thread>(...))\<close>, lines 55 and 115.  The worker is
  created first, which may throw.  Then it is appended: in place when the capacity allows;
  otherwise the vector must grow, which throws \<^verbatim>\<open>std::length_error\<close> at \<^verbatim>\<open>max_size()\<close> and
  \<^verbatim>\<open>std::bad_alloc\<close> when the allocator has no storage.  How far the capacity grows is left
  to the implementation; the model keeps what is certain, room for the new element.  A call
  that throws leaves the table as it was.
\<close>

definition push_back ::
  "('w, 't) Thread_ops \<Rightarrow> ('w, 't) ThreadPoolStructure
    \<Rightarrow> error option \<times> ('w, 't) ThreadPoolStructure" where
  "push_back ops d =
     (case Thread_create ops (length (threadTable d)) of
        Some e \<Rightarrow> (Some e, d)
      | None \<Rightarrow>
          if length (threadTable d) < table_capacity d
          then (None, d\<lparr>threadTable := threadTable d @ [Thread_new ops],
                          history := history d @ [Push_back]\<rparr>)
          else if unat (vector_max_size ops) \<le> length (threadTable d)
          then (Some Length_error, d)
          else if Vector_allocate ops (length (threadTable d) + 1)
          then (None, d\<lparr>threadTable := threadTable d @ [Thread_new ops],
                          table_capacity := length (threadTable d) + 1,
                          history := history d @ [Push_back]\<rparr>)
          else (Some Bad_alloc, d))"

text \<open>
  The loop \<^verbatim>\<open>for (counter = 0; counter < number; ++counter) threadTable.push_back(...)\<close> of the
  constructor and of \<^verbatim>\<open>setThreads\<close>, with its unsigned counter.  An exception ends the loop;
  the workers appended before it stay in the table.
\<close>

function push_back_loop ::
  "('w, 't) Thread_ops \<Rightarrow> size_type \<Rightarrow> size_type \<Rightarrow> ('w, 't) ThreadPoolStructure
    \<Rightarrow> error option \<times> ('w, 't) ThreadPoolStructure" where
  "push_back_loop ops counter number d =
     (if counter < number
      then (if fst (push_back ops d) = None
            then push_back_loop ops (counter + 1) number (snd (push_back ops d))
            else push_back ops d)
      else (None, d))"
  by pat_completeness auto
termination
proof (relation "measure (\<lambda>(ops, counter, number, d). unat (number - counter))")
  show "wf (measure (\<lambda>(ops, counter, number, d). unat (number - counter)))"
    by simp
next
  fix ops :: "('w, 't) Thread_ops" and counter number :: size_type
    and d :: "('w, 't) ThreadPoolStructure"
  assume "counter < number"
  then have "unat (number - (counter + 1)) < unat (number - counter)"
    by unat_arith
  then show "((ops, counter + 1, number, snd (push_back ops d)), (ops, counter, number, d))
      \<in> measure (\<lambda>(ops, counter, number, d). unat (number - counter))"
    by simp
qed

declare push_back_loop.simps [simp del]

section \<open>The pool facade\<close>

text \<open>Lines 90--99, 132--149: \<^verbatim>\<open>setMaxThreads\<close> and the accessors.\<close>

definition setMaxThreads :: "size_type \<Rightarrow> ('w, 't) ThreadPoolStructure \<Rightarrow> ('w, 't) ThreadPoolStructure" where
  "setMaxThreads maxThreads' d = d\<lparr>maxThreads := (if maxThreads' > 0 then maxThreads' else 1)\<rparr>"

definition getMaxThreads :: "('w, 't) ThreadPoolStructure \<Rightarrow> size_type" where
  "getMaxThreads d = maxThreads d"

definition getThreads :: "('w, 't) ThreadPoolStructure \<Rightarrow> size_type" where
  "getThreads d = vector_size (threadTable d)"

definition getFreeThreads :: "('w, 't) ThreadPoolStructure \<Rightarrow> size_type" where
  "getFreeThreads d = freeThreads d"

text \<open>
  Lines 146--149.  \<^verbatim>\<open>Queue.h\<close> is not among the sources: the queue is the list of its tasks
  with the front at the head, and its \<^verbatim>\<open>size()\<close> is the number of tasks in it.
\<close>

definition getTasks :: "('w, 't) ThreadPoolStructure \<Rightarrow> nat" where
  "getTasks d = length (taskQueue d)"

text \<open>
  Lines 31--58: the constructor.  \<open>ThreadPoolStructure_new\<close> is the freshly allocated
  structure, with an empty vector; its three atomics are assigned before they are read, so
  their initial values do not matter.  The last line starts the manager thread at the head
  of \<^verbatim>\<open>execute\<close>.  The result is \<open>Inl e\<close> when the constructor is left by the exception \<open>e\<close>,
  and \<open>Inr d\<close> when it returns the pool \<open>d\<close>.
\<close>

definition ThreadPoolStructure_new :: "('w, 't) ThreadPoolStructure" where
  "ThreadPoolStructure_new =
     \<lparr>threadTable = [], table_capacity = 0, taskQueue = [], thread = Returned,
      joinable = False, mutex = None, queue_mutex = None, signal = 0, closed = False,
      maxThreads = 0, freeThreads = 0, history = []\<rparr>"

definition ThreadPool ::
  "('w, 't) Thread_ops \<Rightarrow> size_type \<Rightarrow> size_type \<Rightarrow> error + ('w, 't) ThreadPoolStructure" where
  "ThreadPool ops threads maxThreads' =
     (if \<not> Structure_allocate ops then Inl Bad_alloc
      else
        let d0 = ThreadPoolStructure_new;
            d1 = setClosed False d0;
            d2 = setMaxThreads maxThreads' d1;
            threads' = min threads maxThreads'
        in case reserve ops threads' d2 of
             (Some e, d3) \<Rightarrow> Inl e
           | (None, d3) \<Rightarrow>
               (case push_back_loop ops 0 threads' d3 of
                  (Some e, d4) \<Rightarrow> Inl e
                | (None, d4) \<Rightarrow>
                    let d5 = d4\<lparr>freeThreads := vector_size (threadTable d4)\<rparr>
                    in case Manager_start ops of
                         Some e \<Rightarrow> Inl e
                       | None \<Rightarrow> Inr (d5\<lparr>thread := L232, joinable := True\<rparr>)))"

text \<open>
  Lines 102--130: \<^verbatim>\<open>setThreads\<close>, branch by branch.  \<open>number\<close> is unsigned, as in the source;
  the comparison \<open>number < 0\<close> is kept as written.  The result is \<open>None\<close> when the call
  cannot go on, waiting in line 111 for a mutex that another thread owns.  Otherwise it is
  the pool the call leaves behind together with \<open>Inr b\<close> when the call returns \<open>b\<close>, or
  \<open>Inl e\<close> when it is left by the exception \<open>e\<close>; the destructor of \<^verbatim>\<open>locker\<close> then releases
  the mutex, and lines 118--122 are not run.
\<close>

definition setThreads ::
  "('w, 't) Thread_ops \<Rightarrow> size_type \<Rightarrow> ('w, 't) ThreadPoolStructure
    \<Rightarrow> ((error + bool) \<times> ('w, 't) ThreadPoolStructure) option" where
  "setThreads ops threads d =
     (if threads > getMaxThreads d then Some (Inr False, d)
      else
        let number = threads - vector_size (threadTable d) in
        if number > 0 then
          if mutex d \<noteq> None then None
          else
            let d1 = lock Caller Table_mutex d in
            case reserve ops threads d1 of
              (Some e, d2) \<Rightarrow> Some (Inl e, unlock Caller Table_mutex d2)
            | (None, d2) \<Rightarrow>
                (case push_back_loop ops 0 number d2 of
                   (Some e, d3) \<Rightarrow> Some (Inl e, unlock Caller Table_mutex d3)
                 | (None, d3) \<Rightarrow>
                     let d4 = unlock Caller Table_mutex d3;
                         d5 = d4\<lparr>freeThreads := freeThreads d4 + number\<rparr>;
                         d6 = (if freeThreads d5 = number then notify_one d5 else d5)
                     in Some (Inr True, d6))
        else if number < 0 then Some (Inr False, d)
        else Some (Inr False, d))"

text \<open>
  Modelled from the spec: \<^verbatim>\<open>Queue::push\<close> of the absent \<^verbatim>\<open>Queue.h\<close>, for one item and for a
  list of items.  It appends the item, or the whole batch in order, at the back of the
  queue, under the queue's own lock.
\<close>

definition Queue_push :: "'t list \<Rightarrow> ('w, 't) ThreadPoolStructure \<Rightarrow> ('w, 't) ThreadPoolStructure" where
  "Queue_push ts d =
     (let d1 = lock Producer Queue_mutex d;
          d2 = d1\<lparr>taskQueue := taskQueue d1 @ ts\<rparr>
      in unlock Producer Queue_mutex d2)"

text \<open>
  Lines 152--176: the three \<^verbatim>\<open>pushTask\<close> overloads.  The two single-task overloads differ
  only in how the pair is built, so one definition stands for both.
\<close>

definition pushTask :: "'t \<Rightarrow> ('w, 't) ThreadPoolStructure \<Rightarrow> ('w, 't) ThreadPoolStructure" where
  "pushTask task d =
     (let d1 = Queue_push [task] d
      in if getTasks d1 = 1 then notify_one d1 else d1)"

definition pushTask_list :: "'t list \<Rightarrow> ('w, 't) ThreadPoolStructure \<Rightarrow> ('w, 't) ThreadPoolStructure" where
  "pushTask_list tasks d =
     (let size = length tasks;
          d1 = Queue_push tasks d
      in if getTasks d1 = size then notify_one d1 else d1)"

text \<open>Lines 179--189: \<^verbatim>\<open>destroy\<close>.\<close>

definition destroy :: "('w, 't) ThreadPoolStructure \<Rightarrow> ('w, 't) ThreadPoolStructure" where
  "destroy d =
     (if getClosed d then d
      else
        let d1 = setClosed True d;
            d2 = d1\<lparr>joinable := False\<rparr>
        in notify_one d2)"

text \<open>Lines 46--50: the callback handed to every worker.  The thread id is not used.\<close>

definition callback :: "bool \<Rightarrow> ('w, 't) ThreadPoolStructure \<Rightarrow> ('w, 't) ThreadPoolStructure" where
  "callback free d =
     (if free then
        let d1 = d\<lparr>freeThreads := freeThreads d + 1\<rparr>
        in if freeThreads d1 = 1 then notify_one d1 else d1
      else d)"

section \<open>The manager thread\<close>

text \<open>
  Lines 269--270: \<^verbatim>\<open>thread->configure(front) && thread->start()\<close>.  \<^verbatim>\<open>start\<close> is called only
  when \<^verbatim>\<open>configure\<close> has returned true.
\<close>

definition hand_off :: "('w, 't) Thread_ops \<Rightarrow> 't \<Rightarrow> 'w \<Rightarrow> bool \<times> 'w" where
  "hand_off ops task w =
     (let (configured, w1) = Thread_configure ops task w
      in if configured then Thread_start ops w1 else (False, w1))"

text \<open>Lines 269--274: one dispatch attempt on the worker at position \<open>i\<close>.\<close>

definition dispatch :: "('w, 't) Thread_ops \<Rightarrow> nat \<Rightarrow> ('w, 't) ThreadPoolStructure \<Rightarrow> ('w, 't) ThreadPoolStructure" where
  "dispatch ops i d =
     (let (handed, w) = hand_off ops (hd (taskQueue d)) (threadTable d ! i);
          d1 = d\<lparr>threadTable := (threadTable d)[i := w]\<rparr>
      in if handed
         then d1\<lparr>taskQueue := tl (taskQueue d1), freeThreads := freeThreads d1 - 1\<rparr>
         else d1)"

text \<open>Lines 220--230: the local lambda \<^verbatim>\<open>destroy\<close>, which destroys every worker.\<close>

definition destroy_workers :: "('w, 't) Thread_ops \<Rightarrow> ('w, 't) ThreadPoolStructure \<Rightarrow> ('w, 't) ThreadPoolStructure" where
  "destroy_workers ops d = d\<lparr>threadTable := map (Thread_destroy ops) (threadTable d)\<rparr>"

text \<open>
  Leaving \<^verbatim>\<open>execute\<close>: the destructors of \<^verbatim>\<open>taskLocker\<close> and \<^verbatim>\<open>threadLocker\<close> run, in this
  order, and each releases its mutex if it owns it.
\<close>

definition leave_execute :: "('w, 't) ThreadPoolStructure \<Rightarrow> ('w, 't) ThreadPoolStructure" where
  "leave_execute d =
     (let d1 = (if queue_mutex d = Some Manager then unlock Manager Queue_mutex d else d);
          d2 = (if mutex d1 = Some Manager then unlock Manager Table_mutex d1 else d1)
      in d2\<lparr>thread := Returned\<rparr>)"

text \<open>
  Lines 232--281: \<^verbatim>\<open>execute\<close>, one step from each control point.  The result is \<open>None\<close>
  where the manager cannot move: it waits for a mutex that is held, or it has returned.
  \<^verbatim>\<open>signal.wait(lock, pred)\<close> is \<^verbatim>\<open>while (!pred()) wait(lock)\<close>: at \<open>L240\<close> and \<open>L260\<close> the
  predicate is evaluated with the lock held; where it is false the lock is released and the
  thread sleeps, and a wake-up (notified or spurious) takes the lock again and returns to the
  predicate.  No step exists at \<open>L251\<close> and \<open>L269\<close> for an iterator beyond the table and at
  \<open>L269\<close> for an empty queue; the invariant \<open>manager_inv\<close> shows these cannot arise.
\<close>

definition execute_step ::
  "('w, 't) Thread_ops \<Rightarrow> ('w, 't) ThreadPoolStructure \<Rightarrow> ('w, 't) ThreadPoolStructure option" where
  "execute_step ops d =
     (case thread d of
        L232 \<Rightarrow> Some (if \<not> getClosed d then d\<lparr>thread := L234\<rparr> else d\<lparr>thread := L280\<rparr>)
      | L234 \<Rightarrow>
          (if mutex d = None then Some ((lock Manager Table_mutex d)\<lparr>thread := L236\<rparr>) else None)
      | L236 \<Rightarrow> Some (if freeThreads d = 0 then d\<lparr>thread := L240\<rparr> else d\<lparr>thread := L249 0\<rparr>)
      | L240 \<Rightarrow>
          Some (if freeThreads d \<noteq> 0 \<or> getClosed d then d\<lparr>thread := L243\<rparr>
                else (unlock Manager Table_mutex d)\<lparr>thread := L240_blocked\<rparr>)
      | L240_blocked \<Rightarrow>
          (if mutex d = None then Some ((lock Manager Table_mutex d)\<lparr>thread := L240\<rparr>) else None)
      | L243 \<Rightarrow> Some (if getClosed d then d\<lparr>thread := L280\<rparr> else d\<lparr>thread := L249 0\<rparr>)
      | L249 i \<Rightarrow>
          Some (if i < length (threadTable d) \<and> freeThreads d \<noteq> 0 \<and> \<not> getClosed d
                then d\<lparr>thread := L251 i\<rparr> else d\<lparr>thread := L278\<rparr>)
      | L251 i \<Rightarrow>
          (if i < length (threadTable d)
           then Some (if Thread_free ops (threadTable d ! i)
                      then d\<lparr>thread := L253 i\<rparr> else d\<lparr>thread := L249 (i + 1)\<rparr>)
           else None)
      | L253 i \<Rightarrow>
          (if queue_mutex d = None then Some ((lock Manager Queue_mutex d)\<lparr>thread := L256 i\<rparr>)
           else None)
      | L256 i \<Rightarrow> Some (if taskQueue d = [] then d\<lparr>thread := L260 i\<rparr> else d\<lparr>thread := L269 i\<rparr>)
      | L260 i \<Rightarrow>
          Some (if taskQueue d \<noteq> [] \<or> getClosed d then d\<lparr>thread := L262 i\<rparr>
                else (unlock Manager Queue_mutex d)\<lparr>thread := L260_blocked i\<rparr>)
      | L260_blocked i \<Rightarrow>
          (if queue_mutex d = None then Some ((lock Manager Queue_mutex d)\<lparr>thread := L260 i\<rparr>)
           else None)
      | L262 i \<Rightarrow> Some (if getClosed d then d\<lparr>thread := L264\<rparr> else d\<lparr>thread := L256 i\<rparr>)
      | L264 \<Rightarrow> Some (leave_execute (destroy_workers ops d))
      | L269 i \<Rightarrow>
          (if i < length (threadTable d) \<and> taskQueue d \<noteq> []
           then Some ((dispatch ops i d)\<lparr>thread := L275 i\<rparr>) else None)
      | L275 i \<Rightarrow> Some ((unlock Manager Queue_mutex d)\<lparr>thread := L249 (i + 1)\<rparr>)
      | L278 \<Rightarrow> Some ((unlock Manager Table_mutex d)\<lparr>thread := L232\<rparr>)
      | L280 \<Rightarrow> Some (leave_execute (destroy_workers ops d))
      | Returned \<Rightarrow> None)"

text \<open>\<open>n\<close> consecutive steps of the manager, with nothing else happening in between.\<close>

fun execute_run ::
  "('w, 't) Thread_ops \<Rightarrow> nat \<Rightarrow> ('w, 't) ThreadPoolStructure \<Rightarrow> ('w, 't) ThreadPoolStructure option" where
  "execute_run ops 0 d = Some d"
| "execute_run ops (Suc n) d =
     (case execute_step ops d of None \<Rightarrow> None | Some d' \<Rightarrow> execute_run ops n d')"

section \<open>Executions of the pool\<close>

text \<open>
  One step of the whole pool: a step of the manager, a call of the facade made by some other
  thread, or something a worker thread does.  A facade call is one step, whether it returns
  or is left by an exception; a call that takes a mutex is possible only where that mutex is
  free.  The workers' own code is not among the
  sources: a worker may change its own state in any way, may run the callback of lines
  46--50, and (as the comment in lines 44--45 says) may take the front task from the queue
  itself, under the queue's lock.
\<close>

inductive pool_step ::
  "('w, 't) Thread_ops \<Rightarrow> ('w, 't) ThreadPoolStructure \<Rightarrow> ('w, 't) ThreadPoolStructure \<Rightarrow> bool"
  for ops :: "('w, 't) Thread_ops" where
    manager: "execute_step ops d = Some d' \<Longrightarrow> pool_step ops d d'"
  | set_threads: "setThreads ops threads d = Some (outcome, d') \<Longrightarrow> pool_step ops d d'"
  | push_task: "queue_mutex d = None \<Longrightarrow> pool_step ops d (pushTask task d)"
  | push_task_list: "queue_mutex d = None \<Longrightarrow> pool_step ops d (pushTask_list tasks d)"
  | destroy_pool: "pool_step ops d (destroy d)"
  | worker_callback: "pool_step ops d (callback free d)"
  | worker_internal:
      "i < length (threadTable d) \<Longrightarrow> pool_step ops d (d\<lparr>threadTable := (threadTable d)[i := w]\<rparr>)"
  | worker_take:
      "queue_mutex d = None \<Longrightarrow> taskQueue d = task # rest \<Longrightarrow> pool_step ops d (d\<lparr>taskQueue := rest\<rparr>)"

text \<open>
  The configurations an execution can reach from a pool that its constructor has returned.
\<close>

inductive reachable :: "('w, 't) Thread_ops \<Rightarrow> ('w, 't) ThreadPoolStructure \<Rightarrow> bool"
  for ops :: "('w, 't) Thread_ops" where
    init: "ThreadPool ops threads maxThreads' = Inr d \<Longrightarrow> reachable ops d"
  | step: "reachable ops d \<Longrightarrow> pool_step ops d d' \<Longrightarrow> reachable ops d'"

section \<open>Who holds which lock\<close>

text \<open>
  The set of mutexes an actor holds is read off the history: \<open>held a e H\<close> is what actor
  \<open>a\<close> holds after event \<open>e\<close> when it held \<open>H\<close> before.  \<open>never_both a H es\<close> says that
  \<open>a\<close>, holding \<open>H\<close> at first, at no point of \<open>es\<close> holds both mutexes.
\<close>

fun held :: "actor \<Rightarrow> event \<Rightarrow> mutex_id set \<Rightarrow> mutex_id set" where
  "held a (Lock b m) H = (if a = b then insert m H else H)"
| "held a (Unlock b m) H = (if a = b then H - {m} else H)"
| "held a Push_back H = H"

definition both :: "mutex_id set \<Rightarrow> bool" where
  "both H = (Table_mutex \<in> H \<and> Queue_mutex \<in> H)"

fun never_both :: "actor \<Rightarrow> mutex_id set \<Rightarrow> event list \<Rightarrow> bool" where
  "never_both a H [] = (\<not> both H)"
| "never_both a H (e # es) = (\<not> both H \<and> never_both a (held a e H) es)"

text \<open>What the manager holds at each control point of \<^verbatim>\<open>execute\<close>.\<close>

fun holds_table :: "manager_pc \<Rightarrow> bool" where
  "holds_table L232 = False"
| "holds_table L234 = False"
| "holds_table L240_blocked = False"
| "holds_table L280 = False"
| "holds_table Returned = False"
| "holds_table pc = True"

fun holds_queue :: "manager_pc \<Rightarrow> bool" where
  "holds_queue (L256 i) = True"
| "holds_queue (L260 i) = True"
| "holds_queue (L262 i) = True"
| "holds_queue L264 = True"
| "holds_queue (L269 i) = True"
| "holds_queue (L275 i) = True"
| "holds_queue pc = False"

text \<open>What an actor holds at the end of a sequence of events.\<close>

fun held_after :: "actor \<Rightarrow> mutex_id set \<Rightarrow> event list \<Rightarrow> mutex_id set" where
  "held_after a H [] = H"
| "held_after a H (e # es) = held_after a (held a e H) es"

text \<open>
  The order in which an actor takes and releases the two mutexes: \<open>lock_order a H es\<close> says
  that in \<open>es\<close> actor \<open>a\<close>, holding \<open>H\<close> at first, takes the table mutex only while it does
  not hold the queue mutex, takes the queue mutex only while it holds the table mutex, and
  releases the table mutex only after it has released the queue mutex.
\<close>

fun in_order :: "actor \<Rightarrow> event \<Rightarrow> mutex_id set \<Rightarrow> bool" where
  "in_order a (Lock b Table_mutex) H = (if a = b then Queue_mutex \<notin> H else True)"
| "in_order a (Lock b Queue_mutex) H = (if a = b then Table_mutex \<in> H else True)"
| "in_order a (Unlock b Table_mutex) H = (if a = b then Queue_mutex \<notin> H else True)"
| "in_order a (Unlock b Queue_mutex) H = True"
| "in_order a Push_back H = True"

fun lock_order :: "actor \<Rightarrow> mutex_id set \<Rightarrow> event list \<Rightarrow> bool" where
  "lock_order a H [] = True"
| "lock_order a H (e # es) = (in_order a e H \<and> lock_order a (held a e H) es)"

text \<open>The mutexes that the manager owns in a configuration.\<close>

definition manager_holds :: "('w, 't) ThreadPoolStructure \<Rightarrow> mutex_id set" where
  "manager_holds d =
     (if mutex d = Some Manager then {Table_mutex} else {})
     \<union> (if queue_mutex d = Some Manager then {Queue_mutex} else {})"

text \<open>
  The invariant of \<^verbatim>\<open>std::vector\<close>: the size is within the capacity and the capacity within
  \<^verbatim>\<open>max_size()\<close>.
\<close>

definition vector_inv :: "('w, 't) Thread_ops \<Rightarrow> ('w, 't) ThreadPoolStructure \<Rightarrow> bool" where
  "vector_inv ops d =
     (length (threadTable d) \<le> table_capacity d
      \<and> table_capacity d \<le> unat (vector_max_size ops))"

text \<open>
  A sequence of events is balanced for an actor that holds nothing at its start when the
  actor never holds both mutexes during it and holds nothing at its end.
\<close>

definition balanced :: "actor \<Rightarrow> event list \<Rightarrow> bool" where
  "balanced a es = (never_both a {} es \<and> held_after a {} es = {})"

text \<open>
  The invariant of the manager thread, control point by control point: who owns the table
  mutex \<open>m\<close> and the queue mutex \<open>q\<close>, that the iterator of the scan is inside the table
  of length \<open>n\<close>, and that the queue is not empty (\<open>tasks\<close>) when a dispatch is attempted.
  At \<open>L280\<close> the table mutex is held when the loop was left by the \<^verbatim>\<open>break\<close> of line 244
  and free when it was left by its condition.
\<close>

fun pc_inv :: "manager_pc \<Rightarrow> actor option \<Rightarrow> actor option \<Rightarrow> nat \<Rightarrow> bool \<Rightarrow> bool" where
  "pc_inv L232 m q n tasks = (m = None \<and> q = None)"
| "pc_inv L234 m q n tasks = (m = None \<and> q = None)"
| "pc_inv L236 m q n tasks = (m = Some Manager \<and> q = None)"
| "pc_inv L240 m q n tasks = (m = Some Manager \<and> q = None)"
| "pc_inv L240_blocked m q n tasks = (m = None \<and> q = None)"
| "pc_inv L243 m q n tasks = (m = Some Manager \<and> q = None)"
| "pc_inv (L249 i) m q n tasks = (m = Some Manager \<and> q = None)"
| "pc_inv (L251 i) m q n tasks = (m = Some Manager \<and> q = None \<and> i < n)"
| "pc_inv (L253 i) m q n tasks = (m = Some Manager \<and> q = None \<and> i < n)"
| "pc_inv (L256 i) m q n tasks = (m = Some Manager \<and> q = Some Manager \<and> i < n)"
| "pc_inv (L260 i) m q n tasks = (m = Some Manager \<and> q = Some Manager \<and> i < n)"
| "pc_inv (L260_blocked i) m q n tasks = (m = Some Manager \<and> q = None \<and> i < n)"
| "pc_inv (L262 i) m q n tasks = (m = Some Manager \<and> q = Some Manager \<and> i < n)"
| "pc_inv L264 m q n tasks = (m = Some Manager \<and> q = Some Manager)"
| "pc_inv (L269 i) m q n tasks = (m = Some Manager \<and> q = Some Manager \<and> i < n \<and> tasks)"
| "pc_inv (L275 i) m q n tasks = (m = Some Manager \<and> q = Some Manager \<and> i < n)"
| "pc_inv L278 m q n tasks = (m = Some Manager \<and> q = None)"
| "pc_inv L280 m q n tasks = ((m = None \<or> m = Some Manager) \<and> q = None)"
| "pc_inv Returned m q n tasks = (m = None \<and> q = None)"

definition manager_inv :: "('w, 't) ThreadPoolStructure \<Rightarrow> bool" where
  "manager_inv d =
     pc_inv (thread d) (mutex d) (queue_mutex d) (length (threadTable d)) (taskQueue d \<noteq> [])"

section \<open>Concrete workers and platforms\<close>

text \<open>
  Modelled from the spec: the \<^verbatim>\<open>Thread\<close> class of the absent \<^verbatim>\<open>Thread.h\<close>, by the worker
  contract: a worker is idle iff it has no task assigned; \<^verbatim>\<open>configure\<close> assigns a task to an
  idle worker and fails on a busy one; \<^verbatim>\<open>start\<close> succeeds on a worker that has a task.  The
  platform never runs out of threads or memory; \<^verbatim>\<open>max_size()\<close> is \<open>2 ^ 60 - 1\<close>, its value
  for a vector of pointers where \<^verbatim>\<open>std::ptrdiff_t\<close> has 64 bits.  It serves to run the model
  on concrete pools.
\<close>

definition simple_ops :: "(nat option, nat) Thread_ops" where
  "simple_ops =
     \<lparr>Thread_new = None,
      Thread_create = (\<lambda>k. None),
      vector_max_size = 1152921504606846975,
      Vector_allocate = (\<lambda>n. True),
      Structure_allocate = True,
      Manager_start = None,
      Thread_free = (\<lambda>w. w = None),
      Thread_configure = (\<lambda>task w. if w = None then (True, Some task) else (False, w)),
      Thread_start = (\<lambda>w. (w \<noteq> None, w)),
      Thread_destroy = (\<lambda>w. None)\<rparr>"

text \<open>A worker that reports itself idle but rejects every assignment.\<close>

definition rejecting_ops :: "(nat option, nat) Thread_ops" where
  "rejecting_ops = simple_ops\<lparr>Thread_configure := (\<lambda>task w. (False, w))\<rparr>"

text \<open>
  A platform that cannot start a seventh worker: with six workers in the table,
  \<^verbatim>\<open>std::make_unique<Thread>\<close> throws \<^verbatim>\<open>std::system_error\<close>.
\<close>

definition limited_ops :: "(nat option, nat) Thread_ops" where
  "limited_ops = simple_ops\<lparr>Thread_create := (\<lambda>k. if k < 6 then None else Some System_error)\<rparr>"

text \<open>
  The pool that the constructor returns when it returns: \<open>k\<close> idle workers in a table that
  was reserved for them, and the capacity \<open>c\<close>.
\<close>

definition constructed ::
  "('w, 't) Thread_ops \<Rightarrow> nat \<Rightarrow> size_type \<Rightarrow> ('w, 't) ThreadPoolStructure" where
  "constructed ops k c =
     \<lparr>threadTable = replicate k (Thread_new ops), table_capacity = k, taskQueue = [],
      thread = L232, joinable = True, mutex = None, queue_mutex = None, signal = 0,
      closed = False, maxThreads = c, freeThreads = of_nat k,
      history = replicate k Push_back\<rparr>"

text \<open>
  The pool built by \<^verbatim>\<open>ThreadPool(2, 4)\<close> on the platform \<open>limited_ops\<close> after the call
  \<^verbatim>\<open>setThreads(1)\<close> has been left by \<^verbatim>\<open>std::system_error\<close>: six workers under a capacity of
  four.
\<close>

definition over_capacity :: "(nat option, nat) ThreadPoolStructure" where
  "over_capacity =
     \<lparr>threadTable = replicate 6 None, table_capacity = 6, taskQueue = [], thread = L232,
      joinable = True, mutex = None, queue_mutex = None, signal = 0, closed = False,
      maxThreads = 4, freeThreads = 2,
      history = [Push_back, Push_back, Lock Caller Table_mutex] @ replicate 4 Push_back
        @ [Unlock Caller Table_mutex]\<rparr>"

text \<open>
  The pool built by \<^verbatim>\<open>ThreadPool(1, 1)\<close> after the first six steps of its manager: the manager
  stands at line 256, having locked first the table mutex and then the queue mutex.
\<close>

definition both_locks_held :: "(nat option, nat) ThreadPoolStructure" where
  "both_locks_held =
     \<lparr>threadTable = [None], table_capacity = 1, taskQueue = [], thread = L256 0,
      joinable = True, mutex = Some Manager, queue_mutex = Some Manager, signal = 0,
      closed = False, maxThreads = 1, freeThreads = 1,
      history = [Push_back, Lock Manager Table_mutex, Lock Manager Queue_mutex]\<rparr>"

text \<open>
  The pool built by \<^verbatim>\<open>ThreadPool(1, 1)\<close>, with task 7 submitted, after the first seven steps
  of its manager: the manager stands at line 269, about to hand task 7 to worker 0.
\<close>

definition before_dispatch :: "(nat option, nat) ThreadPoolStructure" where
  "before_dispatch =
     \<lparr>threadTable = [None], table_capacity = 1, taskQueue = [7], thread = L269 0,
      joinable = True, mutex = Some Manager, queue_mutex = Some Manager, signal = 1,
      closed = False, maxThreads = 1, freeThreads = 1,
      history = [Push_back, Lock Producer Queue_mutex, Unlock Producer Queue_mutex,
        Lock Manager Table_mutex, Lock Manager Queue_mutex]\<rparr>"

section \<open>Basic facts\<close>

lemmas prim_defs =
  lock_def unlock_def notify_one_def setClosed_def getClosed_def vector_size_def
  getMaxThreads_def getThreads_def getFreeThreads_def getTasks_def setMaxThreads_def

subsection \<open>One \<^verbatim>\<open>push_back\<close>\<close>

lemma push_back_thrown: "fst (push_back ops d) \<noteq> None \<Longrightarrow> snd (push_back ops d) = d"
  by (simp add: push_back_def split: option.splits if_splits)

lemma push_back_done:
  "fst (push_back ops d) = None \<Longrightarrow>
   \<exists>cap. snd (push_back ops d)
     = d\<lparr>threadTable := threadTable d @ [Thread_new ops], table_capacity := cap,
         history := history d @ [Push_back]\<rparr>"
proof (cases "length (threadTable d) < table_capacity d")
  case True
  assume "fst (push_back ops d) = None"
  with True have "snd (push_back ops d)
     = d\<lparr>threadTable := threadTable d @ [Thread_new ops], table_capacity := table_capacity d,
         history := history d @ [Push_back]\<rparr>"
    by (simp add: push_back_def split: option.splits)
  then show ?thesis ..
next
  case False
  assume "fst (push_back ops d) = None"
  with False have "snd (push_back ops d)
     = d\<lparr>threadTable := threadTable d @ [Thread_new ops],
         table_capacity := length (threadTable d) + 1, history := history d @ [Push_back]\<rparr>"
    by (simp add: push_back_def split: option.splits if_splits)
  then show ?thesis ..
qed

lemma push_back_in_place:
  "Thread_create ops (length (threadTable d)) = None \<Longrightarrow>
   length (threadTable d) < table_capacity d \<Longrightarrow>
   push_back ops d
     = (None, d\<lparr>threadTable := threadTable d @ [Thread_new ops],
                history := history d @ [Push_back]\<rparr>)"
  by (simp add: push_back_def)

lemma push_back_succeeds:
  "Thread_create ops (length (threadTable d)) = None \<Longrightarrow>
   Vector_allocate ops (Suc (length (threadTable d))) \<Longrightarrow>
   length (threadTable d) < unat (vector_max_size ops) \<Longrightarrow>
   fst (push_back ops d) = None"
  by (simp add: push_back_def)

lemma push_back_vector_inv: "vector_inv ops d \<Longrightarrow> vector_inv ops (snd (push_back ops d))"
  by (auto simp: push_back_def vector_inv_def split: option.splits)

lemma push_back_capacity:
  "length (threadTable d) < table_capacity d \<Longrightarrow>
   table_capacity (snd (push_back ops d)) = table_capacity d"
  by (simp add: push_back_def split: option.splits)

lemma push_back_length:
  "length (threadTable (snd (push_back ops d)))
     = (if fst (push_back ops d) = None then Suc (length (threadTable d))
        else length (threadTable d))"
  by (simp add: push_back_def split: option.splits)

subsection \<open>The loop\<close>

lemma counter_step:
  fixes counter number :: size_type
  assumes "counter < number"
  shows "counter + 1 \<le> number"
    and "unat (number - counter) = Suc (unat (number - (counter + 1)))"
  using assms by unat_arith+

text \<open>
  Whatever happens, the loop has appended some \<open>k\<close> workers, one \<^verbatim>\<open>push_back\<close> each, and has
  changed nothing but the table: all \<open>number - counter\<close> of them when no exception was
  thrown, and fewer when the next \<^verbatim>\<open>push_back\<close> threw.
\<close>

lemma push_back_loop_shape:
  "counter \<le> number \<Longrightarrow>
   \<exists>k cap.
     snd (push_back_loop ops counter number d)
       = d\<lparr>threadTable := threadTable d @ replicate k (Thread_new ops), table_capacity := cap,
           history := history d @ replicate k Push_back\<rparr>
     \<and> k \<le> unat (number - counter)
     \<and> (fst (push_back_loop ops counter number d) = None \<longrightarrow> k = unat (number - counter))
     \<and> (fst (push_back_loop ops counter number d) \<noteq> None \<longrightarrow>
          fst (push_back ops (snd (push_back_loop ops counter number d)))
            = fst (push_back_loop ops counter number d))"
proof (induction ops counter number d rule: push_back_loop.induct)
  case (1 ops counter number d)
  show ?case
  proof (cases "counter < number")
    case False
    with "1.prems" have eq: "number = counter"
      by simp
    then have loop: "push_back_loop ops counter number d = (None, d)"
      by (subst push_back_loop.simps) simp
    show ?thesis
      unfolding loop using eq
      by - (rule exI [of _ 0], rule exI [of _ "table_capacity d"], simp)
  next
    case less: True
    show ?thesis
    proof (cases "fst (push_back ops d) = None")
      case False
      with less have loop: "push_back_loop ops counter number d = push_back ops d"
        by (subst push_back_loop.simps) (simp only: if_True if_False)
      from False have same: "snd (push_back ops d) = d"
        by (rule push_back_thrown)
      show ?thesis
        unfolding loop using False same
        by - (rule exI [of _ 0], rule exI [of _ "table_capacity d"], auto)
    next
      case True
      with less have loop: "push_back_loop ops counter number d
          = push_back_loop ops (counter + 1) number (snd (push_back ops d))"
        by (subst push_back_loop.simps) simp
      from push_back_done [OF True] obtain c1 where first: "snd (push_back ops d)
          = d\<lparr>threadTable := threadTable d @ [Thread_new ops], table_capacity := c1,
              history := history d @ [Push_back]\<rparr>"
        by (elim exE)
      from "1.IH" [OF less True counter_step(1) [OF less]] obtain k cap where
        rest: "snd (push_back_loop ops (counter + 1) number (snd (push_back ops d)))
          = (snd (push_back ops d))\<lparr>threadTable := threadTable (snd (push_back ops d))
                @ replicate k (Thread_new ops),
              table_capacity := cap,
              history := history (snd (push_back ops d)) @ replicate k Push_back\<rparr>"
        and k: "k \<le> unat (number - (counter + 1))"
        and all: "fst (push_back_loop ops (counter + 1) number (snd (push_back ops d))) = None
          \<longrightarrow> k = unat (number - (counter + 1))"
        and thrown: "fst (push_back_loop ops (counter + 1) number (snd (push_back ops d))) \<noteq> None
          \<longrightarrow> fst (push_back ops (snd (push_back_loop ops (counter + 1) number
                (snd (push_back ops d)))))
            = fst (push_back_loop ops (counter + 1) number (snd (push_back ops d)))"
        by (elim exE conjE)
      have 1: "snd (push_back_loop ops counter number d)
          = d\<lparr>threadTable := threadTable d @ replicate (Suc k) (Thread_new ops),
              table_capacity := cap, history := history d @ replicate (Suc k) Push_back\<rparr>"
        unfolding loop rest unfolding first by (simp add: replicate_app_Cons_same)
      from k have 2: "Suc k \<le> unat (number - counter)"
        by (simp add: counter_step(2) [OF less])
      from all have 3: "fst (push_back_loop ops counter number d) = None
          \<longrightarrow> Suc k = unat (number - counter)"
        unfolding loop by (simp add: counter_step(2) [OF less])
      note 4 = thrown [folded loop]
      from 1 2 3 4 show ?thesis
        by - (rule exI [of _ "Suc k"], rule exI [of _ cap], intro conjI)
    qed
  qed
qed

lemma push_back_loop_vector_inv:
  "vector_inv ops d \<Longrightarrow> vector_inv ops (snd (push_back_loop ops counter number d))"
proof (induction ops counter number d rule: push_back_loop.induct)
  case (1 ops counter number d)
  show ?case
  proof (cases "counter < number \<and> fst (push_back ops d) = None")
    case True
    then have "push_back_loop ops counter number d
        = push_back_loop ops (counter + 1) number (snd (push_back ops d))"
      by (subst push_back_loop.simps) simp
    with True "1.IH" push_back_vector_inv [OF "1.prems"] show ?thesis
      by simp
  next
    case False
    then have "snd (push_back_loop ops counter number d) = snd (push_back ops d)
        \<or> snd (push_back_loop ops counter number d) = d"
      by (subst (1 2) push_back_loop.simps) auto
    with "1.prems" show ?thesis
      by (auto intro: push_back_vector_inv)
  qed
qed

text \<open>With room reserved for them and every creation succeeding, all workers are appended
  in place.\<close>

lemma push_back_loop_in_place:
  "counter \<le> number \<Longrightarrow>
   length (threadTable d) + unat (number - counter) \<le> table_capacity d \<Longrightarrow>
   (\<And>k. length (threadTable d) \<le> k \<Longrightarrow> k < length (threadTable d) + unat (number - counter)
      \<Longrightarrow> Thread_create ops k = None) \<Longrightarrow>
   push_back_loop ops counter number d
     = (None, d\<lparr>threadTable := threadTable d @ replicate (unat (number - counter)) (Thread_new ops),
                history := history d @ replicate (unat (number - counter)) Push_back\<rparr>)"
proof (induction ops counter number d rule: push_back_loop.induct)
  case (1 ops counter number d)
  show ?case
  proof (cases "counter < number")
    case False
    with "1.prems"(1) have "number = counter"
      by simp
    then show ?thesis
      by (subst push_back_loop.simps) simp
  next
    case True
    note step = counter_step [OF True]
    from "1.prems"(2) have room: "length (threadTable d) < table_capacity d"
      by (simp add: step(2))
    have "Thread_create ops (length (threadTable d)) = None"
      by (rule "1.prems"(3)) (simp_all add: step(2))
    from push_back_in_place [OF this room] have first: "push_back ops d
        = (None, d\<lparr>threadTable := threadTable d @ [Thread_new ops],
                   history := history d @ [Push_back]\<rparr>)" .
    then have ok: "fst (push_back ops d) = None"
      by simp
    have "push_back_loop ops (counter + 1) number (snd (push_back ops d))
        = (None, (snd (push_back ops d))\<lparr>threadTable := threadTable (snd (push_back ops d))
              @ replicate (unat (number - (counter + 1))) (Thread_new ops),
            history := history (snd (push_back ops d))
              @ replicate (unat (number - (counter + 1))) Push_back\<rparr>)"
    proof (rule "1.IH" [OF True ok step(1)])
      show "length (threadTable (snd (push_back ops d))) + unat (number - (counter + 1))
          \<le> table_capacity (snd (push_back ops d))"
        using "1.prems"(2) by (simp add: first step(2))
      show "Thread_create ops k = None"
        if "length (threadTable (snd (push_back ops d))) \<le> k"
          and "k < length (threadTable (snd (push_back ops d))) + unat (number - (counter + 1))"
        for k
        using that by (intro "1.prems"(3)) (simp_all add: first step(2))
    qed
    with True ok show ?thesis
      by (subst push_back_loop.simps) (simp add: first step(2) replicate_app_Cons_same)
  qed
qed

text \<open>A loop that would take the table beyond \<^verbatim>\<open>max_size()\<close> ends in an exception.\<close>

lemma push_back_loop_overflow:
  assumes "counter \<le> number" and "vector_inv ops d"
    and "unat (vector_max_size ops) < length (threadTable d) + unat (number - counter)"
  shows "fst (push_back_loop ops counter number d) \<noteq> None"
proof
  assume none: "fst (push_back_loop ops counter number d) = None"
  from push_back_loop_shape [OF assms(1), of ops d] obtain k cap where
    shape: "snd (push_back_loop ops counter number d)
      = d\<lparr>threadTable := threadTable d @ replicate k (Thread_new ops), table_capacity := cap,
          history := history d @ replicate k Push_back\<rparr>"
    and "k \<le> unat (number - counter)"
    and all: "fst (push_back_loop ops counter number d) = None \<longrightarrow> k = unat (number - counter)"
    and "fst (push_back_loop ops counter number d) \<noteq> None \<longrightarrow>
      fst (push_back ops (snd (push_back_loop ops counter number d)))
        = fst (push_back_loop ops counter number d)"
    by (elim exE conjE)
  note shape = shape [unfolded all [rule_format, OF none]]
  have "length (threadTable (snd (push_back_loop ops counter number d)))
      = length (threadTable d) + unat (number - counter)"
    unfolding shape by simp
  moreover from push_back_loop_vector_inv [OF assms(2), of counter number]
  have "length (threadTable (snd (push_back_loop ops counter number d)))
      \<le> unat (vector_max_size ops)"
    by (simp add: vector_inv_def)
  ultimately show False
    using assms(3) by simp
qed

text \<open>
  Where the platform supplies workers and storage for every table size up to \<open>m\<close>, a loop
  of more than \<open>m - length (threadTable d)\<close> rounds leaves more than \<open>m\<close> workers in the
  table, however it ends.
\<close>

lemma push_back_loop_progress:
  assumes "counter \<le> number"
    and avail: "\<And>k. k \<le> m \<Longrightarrow> Thread_create ops k = None \<and> Vector_allocate ops (Suc k)"
    and "m < unat (vector_max_size ops)"
    and "m < length (threadTable d) + unat (number - counter)"
  shows "m < length (threadTable (snd (push_back_loop ops counter number d)))"
proof -
  from push_back_loop_shape [OF assms(1), of ops d] obtain k cap where
    shape: "snd (push_back_loop ops counter number d)
      = d\<lparr>threadTable := threadTable d @ replicate k (Thread_new ops), table_capacity := cap,
          history := history d @ replicate k Push_back\<rparr>"
    and "k \<le> unat (number - counter)"
    and all: "fst (push_back_loop ops counter number d) = None \<longrightarrow> k = unat (number - counter)"
    and thrown: "fst (push_back_loop ops counter number d) \<noteq> None \<longrightarrow>
      fst (push_back ops (snd (push_back_loop ops counter number d)))
        = fst (push_back_loop ops counter number d)"
    by (elim exE conjE)
  have len: "length (threadTable (snd (push_back_loop ops counter number d)))
      = length (threadTable d) + k"
    unfolding shape by simp
  show ?thesis
  proof (cases "fst (push_back_loop ops counter number d) = None")
    case True
    with all len assms(4) show ?thesis
      by simp
  next
    case False
    show ?thesis
    proof (rule ccontr)
      assume "\<not> m < length (threadTable (snd (push_back_loop ops counter number d)))"
      then have small: "length (threadTable (snd (push_back_loop ops counter number d))) \<le> m"
        by simp
      with assms(3) have "fst (push_back ops (snd (push_back_loop ops counter number d))) = None"
        by (intro push_back_succeeds) (simp_all add: avail)
      with thrown False show False
        by simp
    qed
  qed
qed

lemma push_back_loop_capacity:
  "counter \<le> number \<Longrightarrow>
   length (threadTable d) + unat (number - counter) \<le> table_capacity d \<Longrightarrow>
   table_capacity (snd (push_back_loop ops counter number d)) = table_capacity d"
proof (induction ops counter number d rule: push_back_loop.induct)
  case (1 ops counter number d)
  show ?case
  proof (cases "counter < number")
    case False
    then show ?thesis
      by (subst push_back_loop.simps) simp
  next
    case less: True
    note step = counter_step [OF less]
    from "1.prems"(2) have room: "length (threadTable d) < table_capacity d"
      by (simp add: step(2))
    show ?thesis
    proof (cases "fst (push_back ops d) = None")
      case False
      with less have "push_back_loop ops counter number d = push_back ops d"
        by (subst push_back_loop.simps) (simp only: if_True if_False)
      with push_back_thrown [OF False] show ?thesis
        by simp
    next
      case True
      with less have loop: "push_back_loop ops counter number d
          = push_back_loop ops (counter + 1) number (snd (push_back ops d))"
        by (subst push_back_loop.simps) simp
      from "1.prems"(2) True
      have "length (threadTable (snd (push_back ops d))) + unat (number - (counter + 1))
          \<le> table_capacity (snd (push_back ops d))"
        by (simp add: push_back_length push_back_capacity [OF room] step(2))
      from "1.IH" [OF less True step(1) this] show ?thesis
        unfolding loop by (simp add: push_back_capacity [OF room])
    qed
  qed
qed

subsection \<open>\<^verbatim>\<open>reserve\<close>\<close>

lemma reserve_outcome:
  "fst (reserve ops n d) =
     (if unat (vector_max_size ops) < unat n then Some Length_error
      else if unat n \<le> table_capacity d \<or> Vector_allocate ops (unat n) then None
      else Some Bad_alloc)"
  by (simp add: reserve_def)

lemma reserve_thrown: "fst (reserve ops n d) \<noteq> None \<Longrightarrow> snd (reserve ops n d) = d"
  by (simp add: reserve_def split: if_splits)

lemma reserve_done:
  "fst (reserve ops n d) = None \<Longrightarrow>
   snd (reserve ops n d) = d\<lparr>table_capacity := max (table_capacity d) (unat n)\<rparr>"
  by (simp add: reserve_def max_def split: if_splits)

lemma reserve_vector_inv: "vector_inv ops d \<Longrightarrow> vector_inv ops (snd (reserve ops n d))"
  by (simp add: reserve_def vector_inv_def)

subsection \<open>The constructor\<close>

lemma ThreadPool_returns:
  assumes "Structure_allocate ops"
    and "unat (min threads maxThreads') \<le> unat (vector_max_size ops)"
    and "min threads maxThreads' = 0 \<or> Vector_allocate ops (unat (min threads maxThreads'))"
    and create: "\<And>k. k < unat (min threads maxThreads') \<Longrightarrow> Thread_create ops k = None"
    and "Manager_start ops = None"
  shows "ThreadPool ops threads maxThreads'
    = Inr (constructed ops (unat (min threads maxThreads'))
        (if maxThreads' > 0 then maxThreads' else 1))"
proof -
  define d2 :: "('a, 'b) ThreadPoolStructure"
    where "d2 = setMaxThreads maxThreads' (setClosed False ThreadPoolStructure_new)"
  define d3 where "d3 = d2\<lparr>table_capacity := unat (min threads maxThreads')\<rparr>"
  from assms(2,3) have reserved: "reserve ops (min threads maxThreads') d2 = (None, d3)"
    by (auto simp: reserve_def d2_def d3_def ThreadPoolStructure_new_def prim_defs unat_eq_0)
  have "push_back_loop ops 0 (min threads maxThreads') d3
    = (None, d3\<lparr>threadTable := threadTable d3
          @ replicate (unat (min threads maxThreads' - 0)) (Thread_new ops),
        history := history d3 @ replicate (unat (min threads maxThreads' - 0)) Push_back\<rparr>)"
    by (rule push_back_loop_in_place)
      (simp_all add: d3_def d2_def ThreadPoolStructure_new_def prim_defs create)
  with reserved assms(1,5) show ?thesis
    by (simp add: ThreadPool_def Let_def constructed_def d2_def [symmetric])
      (simp add: d3_def d2_def ThreadPoolStructure_new_def prim_defs)
qed

lemma ThreadPool_Inr:
  assumes "ThreadPool ops threads maxThreads' = Inr d"
  shows "d = constructed ops (unat (min threads maxThreads'))
      (if maxThreads' > 0 then maxThreads' else 1)"
    and "unat (min threads maxThreads') \<le> unat (vector_max_size ops)"
proof -
  define d2 :: "('a, 'b) ThreadPoolStructure"
    where "d2 = setMaxThreads maxThreads' (setClosed False ThreadPoolStructure_new)"
  define d3 where "d3 = snd (reserve ops (min threads maxThreads') d2)"
  define d4 where "d4 = snd (push_back_loop ops 0 (min threads maxThreads') d3)"
  from assms have reserved: "fst (reserve ops (min threads maxThreads') d2) = None"
    and looped: "fst (push_back_loop ops 0 (min threads maxThreads') d3) = None"
    and result: "d = d4\<lparr>freeThreads := vector_size (threadTable d4),
        thread := L232, joinable := True\<rparr>"
    by (auto simp: ThreadPool_def Let_def d2_def d3_def d4_def
        split: if_splits prod.splits option.splits)
  from reserved show bound: "unat (min threads maxThreads') \<le> unat (vector_max_size ops)"
    by (simp add: reserve_outcome split: if_splits)
  from reserve_done [OF reserved]
  have d3: "d3 = d2\<lparr>table_capacity := unat (min threads maxThreads')\<rparr>"
    by (simp add: d3_def d2_def ThreadPoolStructure_new_def prim_defs)
  then have room: "length (threadTable d3) + unat (min threads maxThreads' - 0)
      \<le> table_capacity d3"
    by (simp add: d2_def ThreadPoolStructure_new_def prim_defs)
  from push_back_loop_shape [of 0 "min threads maxThreads'" ops d3] looped
  obtain cap where "d4 = d3\<lparr>threadTable := threadTable d3
        @ replicate (unat (min threads maxThreads' - 0)) (Thread_new ops),
      table_capacity := cap,
      history := history d3 @ replicate (unat (min threads maxThreads' - 0)) Push_back\<rparr>"
    unfolding d4_def by auto
  moreover from push_back_loop_capacity [OF _ room, of ops]
  have "table_capacity d4 = table_capacity d3"
    by (simp add: d4_def)
  ultimately have "d4 = d3\<lparr>threadTable := threadTable d3
        @ replicate (unat (min threads maxThreads')) (Thread_new ops),
      history := history d3 @ replicate (unat (min threads maxThreads')) Push_back\<rparr>"
    by simp
  with result show "d = constructed ops (unat (min threads maxThreads'))
      (if maxThreads' > 0 then maxThreads' else 1)"
    by (simp add: constructed_def d3 d2_def ThreadPoolStructure_new_def prim_defs)
qed

lemma constructed_vector_inv:
  "k \<le> unat (vector_max_size ops) \<Longrightarrow> vector_inv ops (constructed ops k c)"
  by (simp add: vector_inv_def constructed_def)

subsection \<open>The outcomes of \<^verbatim>\<open>setThreads\<close>\<close>

lemma setThreads_above_max:
  "getMaxThreads d < threads \<Longrightarrow> setThreads ops threads d = Some (Inr False, d)"
  by (simp add: setThreads_def)

lemma setThreads_same:
  "threads = getThreads d \<Longrightarrow> setThreads ops threads d = Some (Inr False, d)"
  by (simp add: setThreads_def getThreads_def)

lemma setThreads_blocked:
  "threads \<le> getMaxThreads d \<Longrightarrow> threads \<noteq> getThreads d \<Longrightarrow> mutex d \<noteq> None \<Longrightarrow>
   setThreads ops threads d = None"
  by (auto simp: setThreads_def Let_def getThreads_def word_greater_zero_iff not_less [symmetric])

lemma setThreads_unfold:
  assumes "threads \<le> getMaxThreads d" and "threads \<noteq> getThreads d" and "mutex d = None"
  shows "setThreads ops threads d =
    (case reserve ops threads (lock Caller Table_mutex d) of
       (Some e, d2) \<Rightarrow> Some (Inl e, unlock Caller Table_mutex d2)
     | (None, d2) \<Rightarrow>
         (case push_back_loop ops 0 (threads - getThreads d) d2 of
            (Some e, d3) \<Rightarrow> Some (Inl e, unlock Caller Table_mutex d3)
          | (None, d3) \<Rightarrow>
              Some (Inr True,
                (if freeThreads d3 + (threads - getThreads d) = threads - getThreads d
                 then notify_one ((unlock Caller Table_mutex d3)
                   \<lparr>freeThreads := freeThreads d3 + (threads - getThreads d)\<rparr>)
                 else (unlock Caller Table_mutex d3)
                   \<lparr>freeThreads := freeThreads d3 + (threads - getThreads d)\<rparr>))))"
proof -
  from assms(2) have "0 < threads - vector_size (threadTable d)"
    by (simp add: word_greater_zero_iff getThreads_def)
  with assms(1,3) show ?thesis
    by (simp add: setThreads_def Let_def getThreads_def unlock_def not_less [symmetric]
        split: prod.splits option.splits)
qed

text \<open>
  A call that enters the growth branch takes the table mutex, appends some \<open>k\<close> workers and
  releases the mutex.  It either returns true, having appended all \<open>threads - getThreads d\<close>
  workers, raised the idle counter and notified if that was zero; or it is left by an
  exception, with the idle counter and the signal untouched.  It never returns false.
\<close>

lemma setThreads_entered:
  assumes "threads \<le> getMaxThreads d" and "threads \<noteq> getThreads d" and "mutex d = None"
  shows "\<exists>outcome k cap.
    setThreads ops threads d = Some (outcome,
      d\<lparr>threadTable := threadTable d @ replicate k (Thread_new ops),
        table_capacity := cap,
        mutex := None,
        signal := (if outcome = Inr True \<and> freeThreads d = 0 then signal d + 1 else signal d),
        freeThreads := (if outcome = Inr True then freeThreads d + (threads - getThreads d)
          else freeThreads d),
        history := history d @ Lock Caller Table_mutex # replicate k Push_back
          @ [Unlock Caller Table_mutex]\<rparr>)
    \<and> outcome \<noteq> Inr False
    \<and> k \<le> unat (threads - getThreads d)
    \<and> (outcome = Inr True \<longrightarrow> k = unat (threads - getThreads d))"
proof -
  define d1 where "d1 = lock Caller Table_mutex d"
  define number where "number = threads - getThreads d"
  note unfold = setThreads_unfold [OF assms, of ops, folded d1_def number_def]
  show ?thesis
  proof (cases "fst (reserve ops threads d1)")
    case (Some e)
    with reserve_thrown [of ops threads d1] have "reserve ops threads d1 = (Some e, d1)"
      by (simp add: prod_eq_iff)
    then have "setThreads ops threads d = Some (Inl e,
        d\<lparr>threadTable := threadTable d @ replicate 0 (Thread_new ops),
          table_capacity := table_capacity d,
          mutex := None,
          signal := signal d,
          freeThreads := freeThreads d,
          history := history d @ Lock Caller Table_mutex # replicate 0 Push_back
            @ [Unlock Caller Table_mutex]\<rparr>)"
      by (simp add: unfold) (simp add: d1_def lock_def unlock_def)
    then show ?thesis
      by - (rule exI [of _ "Inl e"], rule exI [of _ 0], rule exI [of _ "table_capacity d"], simp)
  next
    case None
    define d2 where "d2 = d1\<lparr>table_capacity := max (table_capacity d1) (unat threads)\<rparr>"
    from None reserve_done [OF None] have reserved: "reserve ops threads d1 = (None, d2)"
      by (simp add: prod_eq_iff d2_def)
    from push_back_loop_shape [OF word_zero_le, where number = number and ops = ops and d = d2]
    obtain k cap where
      shape: "snd (push_back_loop ops 0 number d2)
        = d2\<lparr>threadTable := threadTable d2 @ replicate k (Thread_new ops), table_capacity := cap,
            history := history d2 @ replicate k Push_back\<rparr>"
      and k: "k \<le> unat (number - 0)"
      and all: "fst (push_back_loop ops 0 number d2) = None \<longrightarrow> k = unat (number - 0)"
      and "fst (push_back_loop ops 0 number d2) \<noteq> None \<longrightarrow>
        fst (push_back ops (snd (push_back_loop ops 0 number d2)))
          = fst (push_back_loop ops 0 number d2)"
      by (elim exE conjE)
    show ?thesis
    proof (cases "fst (push_back_loop ops 0 number d2)")
      case (Some e)
      then have looped: "push_back_loop ops 0 number d2
          = (Some e, d2\<lparr>threadTable := threadTable d2 @ replicate k (Thread_new ops),
              table_capacity := cap, history := history d2 @ replicate k Push_back\<rparr>)"
        by (simp add: prod_eq_iff shape)
      have "setThreads ops threads d = Some (Inl e,
          d\<lparr>threadTable := threadTable d @ replicate k (Thread_new ops),
            table_capacity := cap,
            mutex := None,
            signal := signal d,
            freeThreads := freeThreads d,
            history := history d @ Lock Caller Table_mutex # replicate k Push_back
              @ [Unlock Caller Table_mutex]\<rparr>)"
        by (simp add: unfold reserved looped) (simp add: d2_def d1_def lock_def unlock_def)
      with k show ?thesis
        unfolding number_def
        by - (rule exI [of _ "Inl e"], rule exI [of _ k], rule exI [of _ cap], simp)
    next
      case None
      with all have count: "k = unat number"
        by simp
      from None have looped: "push_back_loop ops 0 number d2
          = (None, d2\<lparr>threadTable := threadTable d2 @ replicate k (Thread_new ops),
              table_capacity := cap, history := history d2 @ replicate k Push_back\<rparr>)"
        by (simp add: prod_eq_iff shape)
      have "setThreads ops threads d = Some (Inr True,
          d\<lparr>threadTable := threadTable d @ replicate k (Thread_new ops),
            table_capacity := cap,
            mutex := None,
            signal := (if freeThreads d = 0 then signal d + 1 else signal d),
            freeThreads := freeThreads d + number,
            history := history d @ Lock Caller Table_mutex # replicate k Push_back
              @ [Unlock Caller Table_mutex]\<rparr>)"
        by (simp add: unfold reserved looped)
          (simp add: d2_def d1_def lock_def unlock_def notify_one_def)
      with count show ?thesis
        unfolding number_def
        by - (rule exI [of _ "Inr True"], rule exI [of _ k], rule exI [of _ cap], simp)
    qed
  qed
qed

text \<open>Every outcome of \<^verbatim>\<open>setThreads\<close>, for the invariants below.\<close>

lemma setThreads_frame:
  assumes "setThreads ops threads d = Some (outcome, d')"
  shows "d' = d \<or>
    (mutex d = None \<and> (\<exists>k cap sig idle. d' =
      d\<lparr>threadTable := threadTable d @ replicate k (Thread_new ops), table_capacity := cap,
        mutex := None, signal := sig, freeThreads := idle,
        history := history d @ Lock Caller Table_mutex # replicate k Push_back
          @ [Unlock Caller Table_mutex]\<rparr>))"
proof (cases "threads \<le> getMaxThreads d \<and> threads \<noteq> getThreads d")
  case False
  then have "setThreads ops threads d = Some (Inr False, d)"
    by (auto simp: setThreads_above_max setThreads_same not_le)
  with assms show ?thesis
    by simp
next
  case True
  with assms have free: "mutex d = None"
    by (cases "mutex d = None") (simp_all add: setThreads_blocked)
  from True free setThreads_entered [of threads d ops] assms show ?thesis
    by (elim exE conjE) (rule disjI2, simp, blast)
qed

lemma setThreads_vector_inv:
  assumes "setThreads ops threads d = Some (outcome, d')" and "vector_inv ops d"
  shows "vector_inv ops d'"
proof (cases "threads \<le> getMaxThreads d \<and> threads \<noteq> getThreads d")
  case False
  then have "setThreads ops threads d = Some (Inr False, d)"
    by (auto simp: setThreads_above_max setThreads_same not_le)
  with assms show ?thesis
    by simp
next
  case True
  with assms(1) have free: "mutex d = None"
    by (cases "mutex d = None") (simp_all add: setThreads_blocked)
  have "vector_inv ops (lock Caller Table_mutex d)"
    using assms(2) by (simp add: vector_inv_def lock_def)
  then have 1: "vector_inv ops (snd (reserve ops threads (lock Caller Table_mutex d)))"
    by (rule reserve_vector_inv)
  then have 2: "vector_inv ops (snd (push_back_loop ops 0 (threads - getThreads d)
      (snd (reserve ops threads (lock Caller Table_mutex d)))))"
    by (rule push_back_loop_vector_inv)
  from assms(1) True free 1 2 show ?thesis
    by (auto simp: setThreads_unfold vector_inv_def unlock_def notify_one_def
        split: prod.splits option.splits if_splits)
qed

subsection \<open>Concrete pools\<close>

lemma ThreadPool_simple:
  assumes "unat (min threads maxThreads') \<le> 1152921504606846975"
  shows "ThreadPool simple_ops threads maxThreads'
    = Inr (constructed simple_ops (unat (min threads maxThreads'))
        (if maxThreads' > 0 then maxThreads' else 1))"
  using assms by (intro ThreadPool_returns) (simp_all add: simple_ops_def)

lemma ThreadPool_rejecting:
  "ThreadPool rejecting_ops 1 1 = Inr (constructed rejecting_ops 1 1)"
  using ThreadPool_returns [of rejecting_ops 1 1] by (simp add: rejecting_ops_def simple_ops_def)

lemma ThreadPool_limited:
  "ThreadPool limited_ops 2 4 = Inr (constructed limited_ops 2 4)"
  using ThreadPool_returns [of limited_ops 2 4] by (simp add: limited_ops_def simple_ops_def)

lemma ThreadPool_simple_1_1: "ThreadPool simple_ops 1 1 = Inr (constructed simple_ops 1 1)"
  using ThreadPool_simple [of 1 1] by simp

section \<open>Construction\<close>

text \<open>
  C6, as the code has it.  The constructor rejects no pair of arguments, but it can be left
  by an exception.  Whenever it returns, the capacity is \<open>maxThreads\<close>, or 1 when that is
  0; the table holds \<open>min threads maxThreads\<close> workers; the idle counter equals the number
  of workers built; and that number does not exceed the capacity.  It returns whenever the
  platform supplies what it asks for: the structure, storage for \<open>min threads maxThreads\<close>
  workers within \<^verbatim>\<open>max_size()\<close>, each of the workers, and the manager thread.  A number of
  workers above \<^verbatim>\<open>max_size()\<close> ends it with \<^verbatim>\<open>std::length_error\<close>.
\<close>

theorem construction_clamps:
  "(ThreadPool ops threads maxThreads' = Inr d \<longrightarrow>
        maxThreads d = (if maxThreads' > 0 then maxThreads' else 1)
      \<and> 1 \<le> getMaxThreads d
      \<and> threadTable d = replicate (unat (min threads maxThreads')) (Thread_new ops)
      \<and> length (threadTable d) = unat (min threads maxThreads')
      \<and> getThreads d = min threads maxThreads'
      \<and> getFreeThreads d = getThreads d
      \<and> unat (getFreeThreads d) = length (threadTable d)
      \<and> getThreads d \<le> getMaxThreads d
      \<and> length (threadTable d) \<le> unat (getMaxThreads d)
      \<and> \<not> getClosed d
      \<and> thread d = L232)
   \<and> (Structure_allocate ops
        \<and> unat (min threads maxThreads') \<le> unat (vector_max_size ops)
        \<and> (min threads maxThreads' = 0 \<or> Vector_allocate ops (unat (min threads maxThreads')))
        \<and> (\<forall>k. k < unat (min threads maxThreads') \<longrightarrow> Thread_create ops k = None)
        \<and> Manager_start ops = None \<longrightarrow>
      ThreadPool ops threads maxThreads'
        = Inr (constructed ops (unat (min threads maxThreads'))
            (if maxThreads' > 0 then maxThreads' else 1)))
   \<and> (Structure_allocate ops \<and> unat (vector_max_size ops) < unat (min threads maxThreads') \<longrightarrow>
      ThreadPool ops threads maxThreads' = Inl Length_error)"
proof (intro conjI impI)
  assume "Structure_allocate ops
        \<and> unat (min threads maxThreads') \<le> unat (vector_max_size ops)
        \<and> (min threads maxThreads' = 0 \<or> Vector_allocate ops (unat (min threads maxThreads')))
        \<and> (\<forall>k. k < unat (min threads maxThreads') \<longrightarrow> Thread_create ops k = None)
        \<and> Manager_start ops = None"
  then show "ThreadPool ops threads maxThreads'
        = Inr (constructed ops (unat (min threads maxThreads'))
            (if maxThreads' > 0 then maxThreads' else 1))"
    by (intro ThreadPool_returns) simp_all
next
  assume "Structure_allocate ops \<and> unat (vector_max_size ops) < unat (min threads maxThreads')"
  then show "ThreadPool ops threads maxThreads' = Inl Length_error"
    by (simp add: ThreadPool_def Let_def reserve_def)
next
  assume returned: "ThreadPool ops threads maxThreads' = Inr d"
  note d = ThreadPool_Inr(1) [OF returned]
  have one: "(1 :: size_type) \<le> (if maxThreads' > 0 then maxThreads' else 1)"
    by (simp add: word_greater_zero_iff word_le_nat_alt unat_gt_0 Suc_leI)
  have le: "min threads maxThreads' \<le> (if maxThreads' > 0 then maxThreads' else 1)"
    by (simp add: word_greater_zero_iff min_def)
  from le have le': "unat (min threads maxThreads')
      \<le> unat (if maxThreads' > 0 then maxThreads' else 1)"
    by (simp only: word_le_nat_alt)
  show "maxThreads d = (if maxThreads' > 0 then maxThreads' else 1)"
    by (simp add: d constructed_def)
  from one show "1 \<le> getMaxThreads d"
    by (simp add: d constructed_def getMaxThreads_def)
  show "threadTable d = replicate (unat (min threads maxThreads')) (Thread_new ops)"
    by (simp add: d constructed_def)
  show "length (threadTable d) = unat (min threads maxThreads')"
    by (simp add: d constructed_def)
  show "getThreads d = min threads maxThreads'"
    by (simp add: d constructed_def getThreads_def vector_size_def)
  show "getFreeThreads d = getThreads d"
    by (simp add: d constructed_def getThreads_def getFreeThreads_def vector_size_def)
  show "unat (getFreeThreads d) = length (threadTable d)"
    by (simp add: d constructed_def getFreeThreads_def)
  from le show "getThreads d \<le> getMaxThreads d"
    by (simp add: d constructed_def getThreads_def getMaxThreads_def vector_size_def)
  from le' show "length (threadTable d) \<le> unat (getMaxThreads d)"
    by (simp add: d constructed_def getMaxThreads_def)
  show "\<not> getClosed d"
    by (simp add: d constructed_def getClosed_def)
  show "thread d = L232"
    by (simp add: d constructed_def)
qed

theorem construction_clamps_witness:
  "ThreadPool simple_ops 5 0 = Inr (constructed simple_ops 0 1)
   \<and> getMaxThreads (constructed simple_ops 0 1) = 1
   \<and> threadTable (constructed simple_ops 0 1) = []
   \<and> getFreeThreads (constructed simple_ops 0 1) = 0
   \<and> ThreadPool simple_ops 5 3 = Inr (constructed simple_ops 3 3)
   \<and> getMaxThreads (constructed simple_ops 3 3) = 3
   \<and> threadTable (constructed simple_ops 3 3) = replicate 3 None
   \<and> getFreeThreads (constructed simple_ops 3 3) = 3
   \<and> unat (vector_max_size simple_ops) < unat (min 1152921504606846976 1152921504606846976 :: size_type)
   \<and> ThreadPool simple_ops 1152921504606846976 1152921504606846976 = Inl Length_error"
proof -
  have resources: "Structure_allocate simple_ops" "Manager_start simple_ops = None"
    "Vector_allocate simple_ops n" "Thread_create simple_ops k = None"
    "unat (vector_max_size simple_ops) = 1152921504606846975"
    "Thread_new simple_ops = None" for n k
    by (simp_all add: simple_ops_def)
  from construction_clamps [of simple_ops 5 0 "constructed simple_ops 0 1"]
  have 1: "ThreadPool simple_ops 5 0 = Inr (constructed simple_ops 0 1)"
    by (simp add: resources)
  from construction_clamps [of simple_ops 5 3 "constructed simple_ops 3 3"]
  have 2: "ThreadPool simple_ops 5 3 = Inr (constructed simple_ops 3 3)"
    by (simp add: resources)
  from construction_clamps
    [of simple_ops 1152921504606846976 1152921504606846976 "constructed simple_ops 0 1"]
  have 3: "ThreadPool simple_ops 1152921504606846976 1152921504606846976 = Inl Length_error"
    by (simp add: resources)
  from construction_clamps [of simple_ops 5 0 "constructed simple_ops 0 1"] 1
  have 4: "getMaxThreads (constructed simple_ops 0 1) = 1"
    "threadTable (constructed simple_ops 0 1) = []"
    "getFreeThreads (constructed simple_ops 0 1) = 0"
    by (simp_all add: resources prim_defs)
  from construction_clamps [of simple_ops 5 3 "constructed simple_ops 3 3"] 2
  have 5: "getMaxThreads (constructed simple_ops 3 3) = 3"
    "threadTable (constructed simple_ops 3 3) = replicate 3 None"
    "getFreeThreads (constructed simple_ops 3 3) = 3"
    by (simp_all add: resources prim_defs)
  from 1 2 3 4 5 show ?thesis
    by (simp add: resources)
qed

text \<open>
  The claim C6 as it is worded fails: with \<^verbatim>\<open>max_size()\<close> at \<open>2 ^ 60 - 1\<close>, the call
  \<^verbatim>\<open>ThreadPool(2 ^ 60, 2 ^ 60)\<close> is left by \<^verbatim>\<open>std::length_error\<close> from \<^verbatim>\<open>reserve\<close> in line 52.
\<close>

theorem construction_fails_counterexample:
  "unat (vector_max_size simple_ops) = 2 ^ 60 - 1
   \<and> ThreadPool simple_ops (2 ^ 60) (2 ^ 60) = Inl Length_error"
  by (simp add: ThreadPool_def Let_def reserve_def simple_ops_def)

section \<open>Changing the number of workers\<close>

lemma push_back_lock: "fst (push_back ops (lock a m d)) = fst (push_back ops d)"
  by (cases m) (simp_all add: push_back_def lock_def split: option.splits)

lemma reserve_within:
  "unat n \<le> table_capacity d \<Longrightarrow> table_capacity d \<le> unat (vector_max_size ops) \<Longrightarrow>
   reserve ops n d = (None, d)"
  by (simp add: reserve_def)

lemma vector_size_exact:
  "vector_inv ops d \<Longrightarrow> unat (getThreads d) = length (threadTable d)"
proof -
  assume "vector_inv ops d"
  moreover have "unat (vector_max_size ops) < 2 ^ 64"
    using unsigned_less [of "vector_max_size ops"] by simp
  ultimately have "length (threadTable d) < 2 ^ 64"
    by (simp add: vector_inv_def)
  then show ?thesis
    by (simp add: getThreads_def vector_size_def unat_of_nat)
qed

lemma push_back_loop_first:
  assumes "counter < number" and "fst (push_back ops d) = None"
  shows "length (threadTable d)
    < length (threadTable (snd (push_back_loop ops counter number d)))"
proof -
  from assms have loop: "push_back_loop ops counter number d
      = push_back_loop ops (counter + 1) number (snd (push_back ops d))"
    by (subst push_back_loop.simps) simp
  from push_back_loop_shape [OF counter_step(1) [OF assms(1)], of ops "snd (push_back ops d)"]
  obtain k cap where "snd (push_back_loop ops (counter + 1) number (snd (push_back ops d)))
      = (snd (push_back ops d))\<lparr>threadTable := threadTable (snd (push_back ops d))
            @ replicate k (Thread_new ops),
          table_capacity := cap,
          history := history (snd (push_back ops d)) @ replicate k Push_back\<rparr>"
    by (elim exE conjE)
  then have "length (threadTable (snd (push_back_loop ops counter number d)))
      = length (threadTable (snd (push_back ops d))) + k"
    unfolding loop by simp
  with assms(2) show ?thesis
    by (simp add: push_back_length)
qed

text \<open>The run of \<^verbatim>\<open>setThreads(1)\<close> on a pool of two workers, where the platform has no
  seventh worker.\<close>

lemma limited_shrink_run:
  "setThreads limited_ops 1 (constructed limited_ops 2 4)
     = Some (Inl System_error,
        (constructed limited_ops 2 4)
          \<lparr>threadTable := replicate 6 None, table_capacity := 6,
            history := [Push_back, Push_back, Lock Caller Table_mutex]
              @ replicate 4 Push_back @ [Unlock Caller Table_mutex]\<rparr>)"
proof -
  define g :: "nat \<Rightarrow> (nat option, nat) ThreadPoolStructure" where
    "g j = (constructed limited_ops 2 4)
        \<lparr>threadTable := replicate (2 + j) None, table_capacity := 2 + j,
          mutex := Some Caller,
          history := [Push_back, Push_back, Lock Caller Table_mutex] @ replicate j Push_back\<rparr>"
    for j
  have new: "Thread_new limited_ops = None"
    and size: "unat (vector_max_size limited_ops) = 1152921504606846975"
    and storage: "Vector_allocate limited_ops n"
    and create: "Thread_create limited_ops k = (if k < 6 then None else Some System_error)"
    for n k
    by (simp_all add: limited_ops_def simple_ops_def)
  have push: "push_back limited_ops (g j) = (None, g (Suc j))" if "j < 4" for j
    using that
    by (simp add: push_back_def g_def new size storage create constructed_def
        replicate_append_same)
  have stop: "push_back limited_ops (g 4) = (Some System_error, g 4)"
    by (simp add: push_back_def g_def create constructed_def)
  have unroll: "push_back_loop limited_ops c 18446744073709551615 (g j)
      = push_back_loop limited_ops (c + 1) 18446744073709551615 (g (Suc j))"
    if "j < 4" and "c < 18446744073709551615" for c j
    using that by (subst push_back_loop.simps) (simp add: push)
  have less: "(0 :: size_type) < 18446744073709551615" "(1 :: size_type) < 18446744073709551615"
    "(2 :: size_type) < 18446744073709551615" "(3 :: size_type) < 18446744073709551615"
    by (simp_all add: word_less_nat_alt)
  have "push_back_loop limited_ops 0 18446744073709551615 (g 0)
      = push_back_loop limited_ops 1 18446744073709551615 (g (Suc 0))"
    using unroll [OF _ less(1), of 0] by simp
  also have "\<dots> = push_back_loop limited_ops 2 18446744073709551615 (g (Suc (Suc 0)))"
    using unroll [OF _ less(2), of "Suc 0"] by simp
  also have "\<dots> = push_back_loop limited_ops 3 18446744073709551615 (g (Suc (Suc (Suc 0))))"
    using unroll [OF _ less(3), of "Suc (Suc 0)"] by simp
  also have "\<dots> = push_back_loop limited_ops 4 18446744073709551615 (g 4)"
    using unroll [OF _ less(4), of "Suc (Suc (Suc 0))"] by (simp add: eval_nat_numeral)
  also have "\<dots> = (Some System_error, g 4)"
    by (subst push_back_loop.simps) (simp add: stop)
  finally have looped: "push_back_loop limited_ops 0 18446744073709551615 (g 0)
      = (Some System_error, g 4)" .
  have locked: "lock Caller Table_mutex (constructed limited_ops 2 4) = g 0"
    by (simp add: g_def lock_def constructed_def new numeral_2_eq_2)
  have reserved: "reserve limited_ops 1 (g 0) = (None, g 0)"
    by (simp add: reserve_def g_def size)
  have number: "(1 :: size_type) - vector_size (threadTable (constructed limited_ops 2 4))
      = 18446744073709551615"
    by (simp add: constructed_def vector_size_def)
  have "setThreads limited_ops 1 (constructed limited_ops 2 4)
      = Some (Inl System_error, unlock Caller Table_mutex (g 4))"
    unfolding setThreads_def Let_def number locked
    by (simp add: reserved looped) (simp add: constructed_def getMaxThreads_def)
  then show ?thesis
    by (simp add: g_def unlock_def constructed_def)
qed

lemma shrink_wraps:
  assumes "n < getThreads d" and "vector_inv ops d"
  shows "unat (vector_max_size ops)
    < length (threadTable (lock Caller Table_mutex d)) + unat (n - getThreads d - 0)"
proof -
  note size = vector_size_exact [OF assms(2)]
  have "unat (vector_max_size ops) < 2 ^ 64" and "unat (getThreads d) < 2 ^ 64"
    using unsigned_less [of "vector_max_size ops"] unsigned_less [of "getThreads d"]
    by simp_all
  moreover from assms(1) have "unat n < unat (getThreads d)"
    by (simp add: word_less_nat_alt)
  ultimately show ?thesis
    by (simp add: unat_sub_if' size [symmetric] lock_def)
qed

lemma setThreads_grows:
  assumes "getThreads d < n" and "n \<le> getMaxThreads d" and "mutex d = None"
    and "vector_inv ops d"
    and "unat n \<le> unat (vector_max_size ops)"
    and "unat n \<le> table_capacity d \<or> Vector_allocate ops (unat n)"
    and create: "\<And>k. length (threadTable d) \<le> k \<Longrightarrow> k < unat n \<Longrightarrow> Thread_create ops k = None"
  shows "setThreads ops n d = Some (Inr True,
    d\<lparr>threadTable := threadTable d
        @ replicate (unat n - unat (getThreads d)) (Thread_new ops),
      table_capacity := max (table_capacity d) (unat n),
      mutex := None,
      signal := (if freeThreads d = 0 then signal d + 1 else signal d),
      freeThreads := freeThreads d + (n - getThreads d),
      history := history d @ Lock Caller Table_mutex
        # replicate (unat n - unat (getThreads d)) Push_back @ [Unlock Caller Table_mutex]\<rparr>)"
proof -
  define d1 where "d1 = lock Caller Table_mutex d"
  define d2 where "d2 = d1\<lparr>table_capacity := max (table_capacity d1) (unat n)\<rparr>"
  from assms(1) have ne: "n \<noteq> getThreads d" and le: "getThreads d \<le> n"
    by simp_all
  note size = vector_size_exact [OF assms(4)]
  from le have count: "unat (n - getThreads d - 0) = unat n - length (threadTable d)"
    by (simp add: unat_sub size)
  from assms(1) have below: "length (threadTable d) < unat n"
    by (simp add: word_less_nat_alt size)
  from assms(5,6) have "fst (reserve ops n d1) = None"
    by (auto simp: reserve_outcome d1_def lock_def)
  from this reserve_done [OF this] have reserved: "reserve ops n d1 = (None, d2)"
    by (simp add: prod_eq_iff d2_def)
  have "push_back_loop ops 0 (n - getThreads d) d2
    = (None, d2\<lparr>threadTable := threadTable d2
          @ replicate (unat (n - getThreads d - 0)) (Thread_new ops),
        history := history d2 @ replicate (unat (n - getThreads d - 0)) Push_back\<rparr>)"
  proof (rule push_back_loop_in_place)
    show "0 \<le> n - getThreads d"
      by simp
    from below show "length (threadTable d2) + unat (n - getThreads d - 0) \<le> table_capacity d2"
      unfolding count by (simp add: d2_def d1_def lock_def)
    show "Thread_create ops k = None"
      if "length (threadTable d2) \<le> k"
        and "k < length (threadTable d2) + unat (n - getThreads d - 0)" for k
      using that below unfolding count by (intro create) (simp_all add: d2_def d1_def lock_def)
  qed
  then show ?thesis
    unfolding setThreads_unfold [OF assms(2) ne assms(3)] d1_def [symmetric] reserved count
    by (simp add: size) (simp add: d2_def d1_def lock_def unlock_def notify_one_def)
qed

lemma setThreads_length_error:
  assumes "n \<le> getMaxThreads d" and "n \<noteq> getThreads d" and "mutex d = None"
    and "unat (vector_max_size ops) < unat n"
  shows "setThreads ops n d = Some (Inl Length_error,
    d\<lparr>mutex := None,
      history := history d @ [Lock Caller Table_mutex, Unlock Caller Table_mutex]\<rparr>)"
  using assms(4) unfolding setThreads_unfold [OF assms(1-3)]
  by (simp add: reserve_def lock_def unlock_def)

text \<open>
  C1 (shrink requests).  The source means to reject a request below the current number of
  workers in its branch \<^verbatim>\<open>else if (number < 0) return false\<close>, but \<open>number\<close> is unsigned, so
  that branch is never taken: \<open>n - getThreads d\<close> wraps around to
  \<open>2 ^ 64 - (getThreads d - n)\<close> and the growth branch is entered.  The call never returns
  false.  It waits for the table mutex; once it has it, it appends workers until an
  exception ends the loop (the table cannot take \<open>2 ^ 64 - (getThreads d - n)\<close> more
  workers), at least one worker if the first \<^verbatim>\<open>push_back\<close> succeeds, and the call is left by
  that exception.
\<close>

theorem shrink_request_not_rejected:
  assumes "n < getThreads d" and "n \<le> getMaxThreads d" and "vector_inv ops d"
  shows "(\<forall>d'. setThreads ops n d \<noteq> Some (Inr False, d'))
    \<and> (mutex d \<noteq> None \<longrightarrow> setThreads ops n d = None)
    \<and> (mutex d = None \<longrightarrow>
        (\<exists>e k cap.
           setThreads ops n d = Some (Inl e,
             d\<lparr>threadTable := threadTable d @ replicate k (Thread_new ops),
               table_capacity := cap,
               mutex := None,
               history := history d @ Lock Caller Table_mutex # replicate k Push_back
                 @ [Unlock Caller Table_mutex]\<rparr>)
           \<and> (fst (push_back ops d) = None \<longrightarrow> 0 < k)))"
proof -
  from assms(1) have ne: "n \<noteq> getThreads d"
    by simp
  then have pos: "0 < n - getThreads d"
    by (simp add: word_greater_zero_iff)
  define d1 where "d1 = lock Caller Table_mutex d"
  define loop where "loop = push_back_loop ops 0 (n - getThreads d) d1"
  have blocked: "setThreads ops n d = None" if "mutex d \<noteq> None"
    using assms(2) ne that by (rule setThreads_blocked)
  have entered: "\<exists>e k cap.
      setThreads ops n d = Some (Inl e,
        d\<lparr>threadTable := threadTable d @ replicate k (Thread_new ops),
          table_capacity := cap,
          mutex := None,
          history := history d @ Lock Caller Table_mutex # replicate k Push_back
            @ [Unlock Caller Table_mutex]\<rparr>)
      \<and> (fst (push_back ops d) = None \<longrightarrow> 0 < k)"
    if free: "mutex d = None"
  proof -
    from assms(1) have "unat n < unat (getThreads d)"
      by (simp add: word_less_nat_alt)
    with assms(3) have "unat n \<le> table_capacity d1"
      and "table_capacity d1 \<le> unat (vector_max_size ops)"
      by (simp_all add: vector_size_exact [OF assms(3)] vector_inv_def d1_def lock_def)
    then have reserved: "reserve ops n d1 = (None, d1)"
      by (rule reserve_within)
    from assms(3) have inv: "vector_inv ops d1"
      by (simp add: vector_inv_def d1_def lock_def)
    from push_back_loop_overflow [OF word_zero_le inv shrink_wraps [OF assms(1,3), folded d1_def]]
    obtain e where thrown: "fst loop = Some e"
      unfolding loop_def by blast
    from push_back_loop_shape [OF word_zero_le, where number = "n - getThreads d"
        and ops = ops and d = d1]
    obtain k cap where shape: "snd loop
        = d1\<lparr>threadTable := threadTable d1 @ replicate k (Thread_new ops), table_capacity := cap,
            history := history d1 @ replicate k Push_back\<rparr>"
      unfolding loop_def by blast
    from thrown shape have looped: "push_back_loop ops 0 (n - getThreads d) d1
        = (Some e, d1\<lparr>threadTable := threadTable d1 @ replicate k (Thread_new ops),
            table_capacity := cap, history := history d1 @ replicate k Push_back\<rparr>)"
      by (simp add: loop_def prod_eq_iff)
    have result: "setThreads ops n d = Some (Inl e,
        d\<lparr>threadTable := threadTable d @ replicate k (Thread_new ops),
          table_capacity := cap,
          mutex := None,
          history := history d @ Lock Caller Table_mutex # replicate k Push_back
            @ [Unlock Caller Table_mutex]\<rparr>)"
      unfolding setThreads_unfold [OF assms(2) ne free] d1_def [symmetric] reserved
      by (simp add: looped) (simp add: d1_def lock_def unlock_def)
    have grown: "fst (push_back ops d) = None \<longrightarrow> 0 < k"
    proof
      assume "fst (push_back ops d) = None"
      then have "fst (push_back ops d1) = None"
        by (simp add: d1_def push_back_lock)
      from push_back_loop_first [OF pos this]
      have "length (threadTable d1) < length (threadTable (snd loop))"
        by (simp add: loop_def)
      then show "0 < k"
        unfolding shape by simp
    qed
    from result grown show ?thesis
      by - (rule exI [of _ e], rule exI [of _ k], rule exI [of _ cap], rule conjI)
  qed
  have never: "setThreads ops n d \<noteq> Some (Inr False, d')" for d'
  proof (cases "mutex d = None")
    case True
    from entered [OF True] show ?thesis
      by (elim exE conjE) simp
  next
    case False
    then show ?thesis
      by (simp add: blocked)
  qed
  show ?thesis
  proof (intro conjI allI impI)
    show "setThreads ops n d \<noteq> Some (Inr False, d')" for d'
      by (rule never)
    show "setThreads ops n d = None" if "mutex d \<noteq> None"
      using that by (rule blocked)
    show "\<exists>e k cap.
      setThreads ops n d = Some (Inl e,
        d\<lparr>threadTable := threadTable d @ replicate k (Thread_new ops),
          table_capacity := cap,
          mutex := None,
          history := history d @ Lock Caller Table_mutex # replicate k Push_back
            @ [Unlock Caller Table_mutex]\<rparr>)
      \<and> (fst (push_back ops d) = None \<longrightarrow> 0 < k)"
      if "mutex d = None"
      using that by (rule entered)
  qed
qed

theorem shrink_request_not_rejected_witness:
  "ThreadPool limited_ops 2 4 = Inr (constructed limited_ops 2 4)
   \<and> getThreads (constructed limited_ops 2 4) = 2
   \<and> getMaxThreads (constructed limited_ops 2 4) = 4
   \<and> setThreads limited_ops 1 (constructed limited_ops 2 4)
       \<noteq> Some (Inr False, constructed limited_ops 2 4)
   \<and> fst (the (setThreads limited_ops 1 (constructed limited_ops 2 4))) = Inl System_error
   \<and> getThreads (snd (the (setThreads limited_ops 1 (constructed limited_ops 2 4)))) = 6"
proof -
  have 1: "(1 :: size_type) < getThreads (constructed limited_ops 2 4)"
    by (simp add: constructed_def getThreads_def vector_size_def)
  have 2: "(1 :: size_type) \<le> getMaxThreads (constructed limited_ops 2 4)"
    by (simp add: constructed_def getMaxThreads_def)
  have 3: "vector_inv limited_ops (constructed limited_ops 2 4)"
    by (simp add: vector_inv_def constructed_def limited_ops_def simple_ops_def)
  have 4: "getThreads (constructed limited_ops 2 4) = 2"
    "getMaxThreads (constructed limited_ops 2 4) = 4"
    by (simp_all add: constructed_def getThreads_def getMaxThreads_def vector_size_def)
  from shrink_request_not_rejected [OF 1 2 3]
  have "setThreads limited_ops 1 (constructed limited_ops 2 4)
      \<noteq> Some (Inr False, constructed limited_ops 2 4)"
    by (elim conjE allE)
  with ThreadPool_limited 4 show ?thesis
    by (simp add: limited_shrink_run getThreads_def vector_size_def)
qed

text \<open>
  C3, as the code has it.  A request above the capacity returns false and changes nothing.
  A request \<open>n\<close> with \<open>getThreads d < n \<le> getMaxThreads d\<close> waits while another thread owns
  the table mutex.  With the mutex free, \<open>n\<close> within \<^verbatim>\<open>max_size()\<close>, and the platform
  supplying the storage and every new worker, it returns true; it appends exactly
  \<open>n - getThreads d\<close> new workers, all of them between taking and releasing the table
  mutex; it adds the same amount to the idle counter; and it notifies the signal once if the
  idle counter was zero before, and not at all otherwise.  Nothing else changes.  With \<open>n\<close>
  above \<^verbatim>\<open>max_size()\<close> the call is left by \<^verbatim>\<open>std::length_error\<close> with the table as it was.
  However the call ends once it has the mutex, it does not return false, and when it is left
  by an exception the mutex is free again, and the idle counter and the signal are untouched.
\<close>

theorem setThreads_growth:
  "(getMaxThreads d < n \<longrightarrow> setThreads ops n d = Some (Inr False, d))
   \<and> (getThreads d < n \<and> n \<le> getMaxThreads d \<and> mutex d \<noteq> None \<longrightarrow>
        setThreads ops n d = None)
   \<and> (getThreads d < n \<and> n \<le> getMaxThreads d \<and> mutex d = None \<and> vector_inv ops d
        \<and> unat n \<le> unat (vector_max_size ops)
        \<and> (unat n \<le> table_capacity d \<or> Vector_allocate ops (unat n))
        \<and> (\<forall>k. length (threadTable d) \<le> k \<and> k < unat n \<longrightarrow> Thread_create ops k = None) \<longrightarrow>
        (\<exists>d'. setThreads ops n d = Some (Inr True, d')
          \<and> threadTable d'
              = threadTable d @ replicate (unat n - unat (getThreads d)) (Thread_new ops)
          \<and> length (threadTable d') = length (threadTable d) + (unat n - unat (getThreads d))
          \<and> getThreads d' = n
          \<and> history d'
              = history d @ [Lock Caller Table_mutex]
                  @ replicate (unat n - unat (getThreads d)) Push_back
                  @ [Unlock Caller Table_mutex]
          \<and> getFreeThreads d' = getFreeThreads d + (n - getThreads d)
          \<and> signal d' = (if getFreeThreads d = 0 then signal d + 1 else signal d)
          \<and> taskQueue d' = taskQueue d
          \<and> maxThreads d' = maxThreads d
          \<and> closed d' = closed d
          \<and> thread d' = thread d
          \<and> queue_mutex d' = queue_mutex d
          \<and> mutex d' = None))
   \<and> (getThreads d < n \<and> n \<le> getMaxThreads d \<and> mutex d = None
        \<and> unat (vector_max_size ops) < unat n \<longrightarrow>
        setThreads ops n d = Some (Inl Length_error,
          d\<lparr>mutex := None,
            history := history d @ [Lock Caller Table_mutex, Unlock Caller Table_mutex]\<rparr>))
   \<and> (getThreads d < n \<and> n \<le> getMaxThreads d \<and> mutex d = None \<longrightarrow>
        (\<exists>outcome d'. setThreads ops n d = Some (outcome, d')
          \<and> outcome \<noteq> Inr False
          \<and> mutex d' = None
          \<and> (outcome \<noteq> Inr True \<longrightarrow>
                getFreeThreads d' = getFreeThreads d \<and> signal d' = signal d)))"
proof (intro conjI impI)
  assume "getMaxThreads d < n"
  then show "setThreads ops n d = Some (Inr False, d)"
    by (rule setThreads_above_max)
next
  assume "getThreads d < n \<and> n \<le> getMaxThreads d \<and> mutex d \<noteq> None"
  then show "setThreads ops n d = None"
    by (intro setThreads_blocked) auto
next
  assume "getThreads d < n \<and> n \<le> getMaxThreads d \<and> mutex d = None
        \<and> unat (vector_max_size ops) < unat n"
  then show "setThreads ops n d = Some (Inl Length_error,
          d\<lparr>mutex := None,
            history := history d @ [Lock Caller Table_mutex, Unlock Caller Table_mutex]\<rparr>)"
    by (intro setThreads_length_error) auto
next
  assume "getThreads d < n \<and> n \<le> getMaxThreads d \<and> mutex d = None"
  then have "n \<le> getMaxThreads d" and "n \<noteq> getThreads d" and "mutex d = None"
    by auto
  from setThreads_entered [OF this, of ops] obtain outcome k cap where
    result: "setThreads ops n d = Some (outcome,
      d\<lparr>threadTable := threadTable d @ replicate k (Thread_new ops),
        table_capacity := cap,
        mutex := None,
        signal := (if outcome = Inr True \<and> freeThreads d = 0 then signal d + 1 else signal d),
        freeThreads := (if outcome = Inr True then freeThreads d + (n - getThreads d)
          else freeThreads d),
        history := history d @ Lock Caller Table_mutex # replicate k Push_back
          @ [Unlock Caller Table_mutex]\<rparr>)"
    and not_false: "outcome \<noteq> Inr False"
    and "k \<le> unat (n - getThreads d)"
    and "outcome = Inr True \<longrightarrow> k = unat (n - getThreads d)"
    by (elim exE conjE)
  show "\<exists>outcome d'. setThreads ops n d = Some (outcome, d')
          \<and> outcome \<noteq> Inr False
          \<and> mutex d' = None
          \<and> (outcome \<noteq> Inr True \<longrightarrow>
                getFreeThreads d' = getFreeThreads d \<and> signal d' = signal d)"
    by (rule exI [of _ outcome], rule exI, rule conjI, rule result)
      (simp add: not_false getFreeThreads_def)
next
  assume conditions: "getThreads d < n \<and> n \<le> getMaxThreads d \<and> mutex d = None
        \<and> vector_inv ops d
        \<and> unat n \<le> unat (vector_max_size ops)
        \<and> (unat n \<le> table_capacity d \<or> Vector_allocate ops (unat n))
        \<and> (\<forall>k. length (threadTable d) \<le> k \<and> k < unat n \<longrightarrow> Thread_create ops k = None)"
  then have inv: "vector_inv ops d" and less: "getThreads d < n"
    by simp_all
  from less have "unat (getThreads d) < unat n"
    by (simp add: word_less_nat_alt)
  then have "length (threadTable d) + (unat n - unat (getThreads d)) = unat n"
    by (simp add: vector_size_exact [OF inv, symmetric])
  then have size: "getThreads (d\<lparr>threadTable := threadTable d
      @ replicate (unat n - unat (getThreads d)) (Thread_new ops)\<rparr>) = n"
    by (simp add: getThreads_def vector_size_def)
  from conditions have result: "setThreads ops n d = Some (Inr True,
    d\<lparr>threadTable := threadTable d
        @ replicate (unat n - unat (getThreads d)) (Thread_new ops),
      table_capacity := max (table_capacity d) (unat n),
      mutex := None,
      signal := (if freeThreads d = 0 then signal d + 1 else signal d),
      freeThreads := freeThreads d + (n - getThreads d),
      history := history d @ Lock Caller Table_mutex
        # replicate (unat n - unat (getThreads d)) Push_back @ [Unlock Caller Table_mutex]\<rparr>)"
    by (intro setThreads_grows) simp_all
  show "\<exists>d'. setThreads ops n d = Some (Inr True, d')
          \<and> threadTable d'
              = threadTable d @ replicate (unat n - unat (getThreads d)) (Thread_new ops)
          \<and> length (threadTable d') = length (threadTable d) + (unat n - unat (getThreads d))
          \<and> getThreads d' = n
          \<and> history d'
              = history d @ [Lock Caller Table_mutex]
                  @ replicate (unat n - unat (getThreads d)) Push_back
                  @ [Unlock Caller Table_mutex]
          \<and> getFreeThreads d' = getFreeThreads d + (n - getThreads d)
          \<and> signal d' = (if getFreeThreads d = 0 then signal d + 1 else signal d)
          \<and> taskQueue d' = taskQueue d
          \<and> maxThreads d' = maxThreads d
          \<and> closed d' = closed d
          \<and> thread d' = thread d
          \<and> queue_mutex d' = queue_mutex d
          \<and> mutex d' = None"
    using size by - (rule exI, rule conjI, rule result, simp add: getFreeThreads_def getThreads_def)
qed

theorem setThreads_growth_witness:
  "ThreadPool simple_ops 0 4 = Inr (constructed simple_ops 0 4)
   \<and> setThreads simple_ops 5 (constructed simple_ops 0 4)
       = Some (Inr False, constructed simple_ops 0 4)
   \<and> fst (the (setThreads simple_ops 2 (constructed simple_ops 0 4))) = Inr True
   \<and> threadTable (snd (the (setThreads simple_ops 2 (constructed simple_ops 0 4))))
       = [None, None]
   \<and> history (snd (the (setThreads simple_ops 2 (constructed simple_ops 0 4))))
       = [Lock Caller Table_mutex, Push_back, Push_back, Unlock Caller Table_mutex]
   \<and> getFreeThreads (snd (the (setThreads simple_ops 2 (constructed simple_ops 0 4)))) = 2
   \<and> signal (snd (the (setThreads simple_ops 2 (constructed simple_ops 0 4)))) = 1
   \<and> signal (snd (the (setThreads simple_ops 3 (constructed simple_ops 1 4)))) = 0
   \<and> setThreads simple_ops 2 ((constructed simple_ops 0 4)\<lparr>mutex := Some Manager\<rparr>) = None"
proof -
  have resources: "unat (vector_max_size simple_ops) = 1152921504606846975"
    "Vector_allocate simple_ops m" "Thread_create simple_ops k = None"
    "Thread_new simple_ops = None" for m k
    by (simp_all add: simple_ops_def)
  have fields: "getMaxThreads (constructed simple_ops j 4) = 4"
    "getThreads (constructed simple_ops 0 4) = 0" "getThreads (constructed simple_ops 1 4) = 1"
    "getFreeThreads (constructed simple_ops 0 4) = 0"
    "getFreeThreads (constructed simple_ops 1 4) = 1"
    "mutex (constructed simple_ops j 4) = None"
    "threadTable (constructed simple_ops 0 4) = []" "history (constructed simple_ops 0 4) = []"
    "length (threadTable (constructed simple_ops 1 4)) = 1"
    "signal (constructed simple_ops j 4) = 0"
    "vector_inv simple_ops (constructed simple_ops 0 4)"
    "vector_inv simple_ops (constructed simple_ops 1 4)" for j
    by (simp_all add: constructed_def prim_defs vector_inv_def resources)
  have two: "replicate 2 x = [x, x]" for x :: 'a
    by (simp add: numeral_2_eq_2)
  from setThreads_growth [of "constructed simple_ops 0 4" 5 simple_ops]
  have 1: "setThreads simple_ops 5 (constructed simple_ops 0 4)
      = Some (Inr False, constructed simple_ops 0 4)"
    by (simp add: fields)
  from setThreads_growth [of "constructed simple_ops 0 4" 2 simple_ops]
  have 2: "\<exists>d'. setThreads simple_ops 2 (constructed simple_ops 0 4) = Some (Inr True, d')
      \<and> threadTable d' = [None, None]
      \<and> history d' = [Lock Caller Table_mutex, Push_back, Push_back, Unlock Caller Table_mutex]
      \<and> getFreeThreads d' = 2 \<and> signal d' = 1"
    by (simp add: fields resources two) blast
  from setThreads_growth [of "constructed simple_ops 1 4" 3 simple_ops]
  have 3: "\<exists>d'. setThreads simple_ops 3 (constructed simple_ops 1 4) = Some (Inr True, d')
      \<and> signal d' = 0"
    by (simp add: fields resources del: One_nat_def) blast
  from setThreads_growth [of "(constructed simple_ops 0 4)\<lparr>mutex := Some Manager\<rparr>" 2 simple_ops]
  have 4: "setThreads simple_ops 2 ((constructed simple_ops 0 4)\<lparr>mutex := Some Manager\<rparr>) = None"
    by (simp add: constructed_def prim_defs)
  from ThreadPool_simple [of 0 4] have 5: "ThreadPool simple_ops 0 4 = Inr (constructed simple_ops 0 4)"
    by simp
  from 1 2 3 4 5 show ?thesis
    by auto
qed

text \<open>
  The claim C3 as it is worded fails: with \<^verbatim>\<open>max_size()\<close> at \<open>2 ^ 60 - 1\<close>, a pool of no workers
  and capacity \<open>2 ^ 60\<close> asked for \<open>2 ^ 60\<close> workers has \<open>workerCount < n \<le> capacity\<close>, yet
  the call appends nothing and does not return: \<^verbatim>\<open>reserve\<close> in line 112 throws
  \<^verbatim>\<open>std::length_error\<close>.
\<close>

theorem setThreads_throws_counterexample:
  "ThreadPool simple_ops 0 (2 ^ 60) = Inr (constructed simple_ops 0 (2 ^ 60))
   \<and> getThreads (constructed simple_ops 0 (2 ^ 60)) < 2 ^ 60
   \<and> 2 ^ 60 \<le> getMaxThreads (constructed simple_ops 0 (2 ^ 60))
   \<and> mutex (constructed simple_ops 0 (2 ^ 60)) = None
   \<and> setThreads simple_ops (2 ^ 60) (constructed simple_ops 0 (2 ^ 60))
       = Some (Inl Length_error,
           (constructed simple_ops 0 (2 ^ 60))
             \<lparr>history := [Lock Caller Table_mutex, Unlock Caller Table_mutex]\<rparr>)"
proof -
  have 1: "ThreadPool simple_ops 0 (2 ^ 60) = Inr (constructed simple_ops 0 (2 ^ 60))"
    using ThreadPool_simple [of 0 "2 ^ 60"] by simp
  have 2: "getThreads (constructed simple_ops 0 (2 ^ 60)) \<noteq> 2 ^ 60"
    "2 ^ 60 \<le> getMaxThreads (constructed simple_ops 0 (2 ^ 60))"
    "mutex (constructed simple_ops 0 (2 ^ 60)) = None"
    "getThreads (constructed simple_ops 0 (2 ^ 60)) < 2 ^ 60"
    "unat (vector_max_size simple_ops) < unat (2 ^ 60 :: size_type)"
    by (simp_all add: constructed_def prim_defs simple_ops_def)
  from setThreads_length_error [of "2 ^ 60" "constructed simple_ops 0 (2 ^ 60)" simple_ops] 2
  have "setThreads simple_ops (2 ^ 60) (constructed simple_ops 0 (2 ^ 60))
       = Some (Inl Length_error,
           (constructed simple_ops 0 (2 ^ 60))
             \<lparr>history := [Lock Caller Table_mutex, Unlock Caller Table_mutex]\<rparr>)"
    by (simp add: constructed_def)
  with 1 2 show ?thesis
    by simp
qed

section \<open>Submitting tasks\<close>

lemma pushTask_eq:
  "pushTask task d =
     d\<lparr>taskQueue := taskQueue d @ [task], queue_mutex := None,
       signal := (if taskQueue d = [] then signal d + 1 else signal d),
       history := history d @ [Lock Producer Queue_mutex, Unlock Producer Queue_mutex]\<rparr>"
  by (simp add: pushTask_def Queue_push_def Let_def prim_defs)

lemma pushTask_list_eq:
  "pushTask_list tasks d =
     d\<lparr>taskQueue := taskQueue d @ tasks, queue_mutex := None,
       signal := (if taskQueue d = [] then signal d + 1 else signal d),
       history := history d @ [Lock Producer Queue_mutex, Unlock Producer Queue_mutex]\<rparr>"
  by (simp add: pushTask_list_def Queue_push_def Let_def prim_defs)






section \<open>Shutting down\<close>

lemma destroy_eq:
  "destroy d = (if closed d then d else d\<lparr>joinable := False, signal := signal d + 1, closed := True\<rparr>)"
  by (simp add: destroy_def Let_def prim_defs)

lemma leave_execute_closed: "closed (leave_execute d) = closed d"
  by (simp add: leave_execute_def Let_def prim_defs)

lemma dispatch_closed: "closed (dispatch ops i d) = closed d"
  by (simp add: dispatch_def Let_def split: prod.split)

lemma execute_step_closed:
  "execute_step ops d = Some d' \<Longrightarrow> closed d' = closed d"
  by (auto simp: execute_step_def leave_execute_closed dispatch_closed destroy_workers_def prim_defs
      split: manager_pc.splits if_splits)

lemma setThreads_closed:
  "setThreads ops n d = Some (outcome, d') \<Longrightarrow> closed d' = closed d"
  by (drule setThreads_frame) auto

lemma pool_step_closed:
  "pool_step ops d d' \<Longrightarrow> closed d \<Longrightarrow> closed d'"
  by (induction rule: pool_step.induct)
    (simp_all add: execute_step_closed setThreads_closed pushTask_eq pushTask_list_eq
      destroy_eq callback_def Let_def prim_defs)

text \<open>
  C8.  \<^verbatim>\<open>destroy\<close> is idempotent.  On a pool that is not closed it sets the closed flag,
  detaches the manager thread and notifies the signal once, and changes nothing else.  On a
  closed pool it changes nothing; so calling it twice gives the state that calling it once
  gives, and so does any later call, whatever the pool has done in between.
\<close>

theorem destroy_idempotent:
  "destroy (destroy d) = destroy d
   \<and> (\<not> getClosed d \<longrightarrow>
        destroy d = d\<lparr>joinable := False, signal := signal d + 1, closed := True\<rparr>)
   \<and> (getClosed d \<longrightarrow> destroy d = d)
   \<and> ((pool_step ops)\<^sup>*\<^sup>* (destroy d) d' \<longrightarrow> destroy d' = d')"
proof (intro conjI impI)
  show "destroy (destroy d) = destroy d"
    by (simp add: destroy_eq)
  show "destroy d = d\<lparr>joinable := False, signal := signal d + 1, closed := True\<rparr>"
    if "\<not> getClosed d"
    using that by (simp add: destroy_eq getClosed_def)
  show "destroy d = d" if "getClosed d"
    using that by (simp add: destroy_eq getClosed_def)
  show "destroy d' = d'" if "(pool_step ops)\<^sup>*\<^sup>* (destroy d) d'"
  proof -
    from that have "closed d'"
    proof (induction rule: rtranclp_induct)
      case base
      show ?case by (simp add: destroy_eq)
    next
      case (step y z)
      then show ?case by (blast intro: pool_step_closed)
    qed
    then show ?thesis
      by (simp add: destroy_eq)
  qed
qed

theorem destroy_idempotent_witness:
  "ThreadPool simple_ops 1 1 = Inr (constructed simple_ops 1 1)
   \<and> destroy (destroy (constructed simple_ops 1 1)) = destroy (constructed simple_ops 1 1)
   \<and> closed (destroy (constructed simple_ops 1 1))
   \<and> \<not> joinable (destroy (constructed simple_ops 1 1))
   \<and> signal (destroy (constructed simple_ops 1 1)) = 1
   \<and> destroy (pushTask 7 (destroy (constructed simple_ops 1 1)))
       = pushTask 7 (destroy (constructed simple_ops 1 1))"
proof -
  have open_pool: "\<not> getClosed (constructed simple_ops 1 1)"
    by (simp add: constructed_def getClosed_def)
  have "queue_mutex (destroy (constructed simple_ops 1 1)) = None"
    by (simp add: constructed_def destroy_eq)
  then have "pool_step simple_ops (destroy (constructed simple_ops 1 1))
      (pushTask 7 (destroy (constructed simple_ops 1 1)))"
    by (rule pool_step.push_task)
  then have later: "(pool_step simple_ops)\<^sup>*\<^sup>* (destroy (constructed simple_ops 1 1))
      (pushTask 7 (destroy (constructed simple_ops 1 1)))"
    by (rule r_into_rtranclp)
  note inst = destroy_idempotent
    [of "constructed simple_ops 1 1" simple_ops
      "pushTask 7 (destroy (constructed simple_ops 1 1))"]
  from inst have twice:
    "destroy (destroy (constructed simple_ops 1 1)) = destroy (constructed simple_ops 1 1)"
    by blast
  from inst open_pool have once: "destroy (constructed simple_ops 1 1)
      = (constructed simple_ops 1 1)\<lparr>joinable := False,
          signal := signal (constructed simple_ops 1 1) + 1, closed := True\<rparr>"
    by blast
  from inst later have after: "destroy (pushTask 7 (destroy (constructed simple_ops 1 1)))
       = pushTask 7 (destroy (constructed simple_ops 1 1))"
    by blast
  have "closed (destroy (constructed simple_ops 1 1))"
    and "\<not> joinable (destroy (constructed simple_ops 1 1))"
    and "signal (destroy (constructed simple_ops 1 1)) = 1"
    unfolding once by (simp_all add: constructed_def)
  with twice after ThreadPool_simple_1_1 show ?thesis
    by blast
qed

text \<open>
  C9.  The closed flag is terminal: once it is true, no step of the pool (a submission, a
  change of the number of workers, a shutdown, a step of the manager, the callback or
  anything else a worker does) makes it false again.
\<close>

theorem closed_is_terminal:
  assumes "closed d" and "(pool_step ops)\<^sup>*\<^sup>* d d'"
  shows "closed d'"
  using assms(2)
proof (induction rule: rtranclp_induct)
  case base
  from assms(1) show ?case .
next
  case (step y z)
  from step.hyps(2) step.IH show ?case
    by (rule pool_step_closed)
qed

theorem closed_is_terminal_witness:
  "ThreadPool simple_ops 1 1 = Inr (constructed simple_ops 1 1)
   \<and> closed (destroy (constructed simple_ops 1 1))
   \<and> fst (the (setThreads simple_ops 1 (callback True (destroy (constructed simple_ops 1 1)))))
       = Inr False
   \<and> closed (snd (the (setThreads simple_ops 1
        (callback True (destroy (constructed simple_ops 1 1))))))"
proof -
  have start: "closed (destroy (constructed simple_ops 1 1))"
    by (simp add: constructed_def destroy_eq)
  have 1: "pool_step simple_ops (destroy (constructed simple_ops 1 1))
      (callback True (destroy (constructed simple_ops 1 1)))"
    by (rule pool_step.worker_callback)
  have "(1 :: size_type) = getThreads (callback True (destroy (constructed simple_ops 1 1)))"
    by (simp add: constructed_def destroy_eq callback_def Let_def prim_defs)
  then have call: "setThreads simple_ops 1 (callback True (destroy (constructed simple_ops 1 1)))
      = Some (Inr False, callback True (destroy (constructed simple_ops 1 1)))"
    by (rule setThreads_same)
  then have 2: "pool_step simple_ops (callback True (destroy (constructed simple_ops 1 1)))
      (snd (the (setThreads simple_ops 1
        (callback True (destroy (constructed simple_ops 1 1))))))"
    by (simp add: pool_step.set_threads)
  from 1 2 have "(pool_step simple_ops)\<^sup>*\<^sup>* (destroy (constructed simple_ops 1 1))
      (snd (the (setThreads simple_ops 1
        (callback True (destroy (constructed simple_ops 1 1))))))"
    by (rule converse_rtranclp_into_rtranclp [OF _ r_into_rtranclp])
  from closed_is_terminal [OF start this] start call ThreadPool_simple_1_1 show ?thesis
    by simp
qed


section \<open>The invariant of the manager thread\<close>

lemma execute_run_numeral [simp]:
  "execute_run ops (numeral k) d =
     (case execute_step ops d of None \<Rightarrow> None | Some d' \<Rightarrow> execute_run ops (pred_numeral k) d')"
  by (simp add: numeral_eq_Suc)

lemma execute_run_reachable:
  "reachable ops d \<Longrightarrow> execute_run ops n d = Some d' \<Longrightarrow> reachable ops d'"
proof (induction n arbitrary: d)
  case 0
  then show ?case by simp
next
  case (Suc n)
  from Suc.prems(2) obtain d1 where first: "execute_step ops d = Some d1"
    and rest: "execute_run ops n d1 = Some d'"
    by (auto split: option.splits)
  from Suc.prems(1) first have "reachable ops d1"
    by (blast intro: reachable.step pool_step.manager)
  with rest show ?case
    by (rule Suc.IH [rotated])
qed

lemma dispatch_fields:
  "mutex (dispatch ops i d) = mutex d"
  "queue_mutex (dispatch ops i d) = queue_mutex d"
  "thread (dispatch ops i d) = thread d"
  "history (dispatch ops i d) = history d"
  "maxThreads (dispatch ops i d) = maxThreads d"
  "length (threadTable (dispatch ops i d)) = length (threadTable d)"
  by (simp_all add: dispatch_def Let_def split: prod.split)

lemma manager_inv_init:
  "ThreadPool ops threads maxThreads' = Inr d \<Longrightarrow> manager_inv d"
  by (drule ThreadPool_Inr(1)) (simp add: manager_inv_def constructed_def)

lemma manager_inv_execute_step:
  "manager_inv d \<Longrightarrow> execute_step ops d = Some d' \<Longrightarrow> manager_inv d'"
  by (cases "thread d")
    (auto simp: execute_step_def manager_inv_def dispatch_fields leave_execute_def
      destroy_workers_def Let_def prim_defs split: if_splits)

lemma pc_inv_table_free: "pc_inv pc None q n tasks \<Longrightarrow> pc_inv pc None q n' tasks"
  by (cases pc) simp_all

lemma pc_inv_queue_free: "pc_inv pc m None n tasks \<Longrightarrow> pc_inv pc m None n tasks'"
  by (cases pc) simp_all

lemma manager_inv_setThreads:
  assumes "manager_inv d" and "setThreads ops threads d = Some (outcome, d')"
  shows "manager_inv d'"
  using setThreads_frame [OF assms(2)] assms(1)
  by (auto simp: manager_inv_def intro: pc_inv_table_free)

lemma manager_inv_pool_step:
  "pool_step ops d d' \<Longrightarrow> manager_inv d \<Longrightarrow> manager_inv d'"
proof (induction rule: pool_step.induct)
  case (manager d d')
  then show ?case by (blast intro: manager_inv_execute_step)
next
  case (set_threads threads d outcome d')
  then show ?case by (blast intro: manager_inv_setThreads)
next
  case (push_task d task)
  then show ?case
    by (auto simp: manager_inv_def pushTask_eq intro: pc_inv_queue_free)
next
  case (push_task_list d tasks)
  then show ?case
    by (auto simp: manager_inv_def pushTask_list_eq intro: pc_inv_queue_free)
next
  case (destroy_pool d)
  then show ?case
    by (simp add: manager_inv_def destroy_eq)
next
  case (worker_callback free d)
  then show ?case
    by (simp add: manager_inv_def callback_def Let_def prim_defs)
next
  case (worker_internal i d w)
  then show ?case
    by (simp add: manager_inv_def)
next
  case (worker_take d task rest)
  then show ?case
    by (auto simp: manager_inv_def intro: pc_inv_queue_free)
qed

lemma reachable_manager_inv: "reachable ops d \<Longrightarrow> manager_inv d"
  by (induction rule: reachable.induct) (simp_all add: manager_inv_init manager_inv_pool_step)

text \<open>The vector stays within its capacity and its \<^verbatim>\<open>max_size()\<close>.\<close>

lemma execute_step_vector_inv:
  "vector_inv ops d \<Longrightarrow> execute_step ops d = Some d' \<Longrightarrow> vector_inv ops d'"
  by (cases "thread d")
    (auto simp: execute_step_def vector_inv_def dispatch_def leave_execute_def
      destroy_workers_def Let_def prim_defs split: if_splits prod.splits)

lemma pool_step_vector_inv:
  "pool_step ops d d' \<Longrightarrow> vector_inv ops d \<Longrightarrow> vector_inv ops d'"
proof (induction rule: pool_step.induct)
  case (manager d d')
  then show ?case by (blast intro: execute_step_vector_inv)
next
  case (set_threads threads d outcome d')
  then show ?case by (blast intro: setThreads_vector_inv)
qed (simp_all add: vector_inv_def pushTask_eq pushTask_list_eq destroy_eq callback_def
    Let_def prim_defs)

lemma reachable_vector_inv: "reachable ops d \<Longrightarrow> vector_inv ops d"
proof (induction rule: reachable.induct)
  case (init threads maxThreads' d)
  from ThreadPool_Inr [OF this] show ?case
    by (simp add: constructed_vector_inv)
next
  case (step d d')
  then show ?case
    by (blast intro: pool_step_vector_inv)
qed

section \<open>Locks\<close>

lemma never_both_start: "never_both a H es \<Longrightarrow> \<not> both H"
  by (cases es) simp_all

lemma never_both_append:
  "never_both a H (xs @ ys) = (never_both a H xs \<and> never_both a (held_after a H xs) ys)"
  by (induction xs arbitrary: H) (auto dest: never_both_start)

lemma held_after_append:
  "held_after a H (xs @ ys) = held_after a (held_after a H xs) ys"
  by (induction xs arbitrary: H) simp_all

lemma held_after_pushes: "held_after a H (replicate k Push_back) = H"
  by (induction k) simp_all

lemma never_both_pushes: "never_both a H (replicate k Push_back) = (\<not> both H)"
  by (induction k) simp_all

lemma balanced_append: "balanced a xs \<Longrightarrow> balanced a ys \<Longrightarrow> balanced a (xs @ ys)"
  by (simp add: balanced_def never_both_append held_after_append)

lemma execute_step_history:
  "execute_step ops d = Some d' \<Longrightarrow>
   \<exists>es. history d' = history d @ es \<and> set es \<subseteq> {Lock Manager Table_mutex, Lock Manager Queue_mutex, Unlock Manager Table_mutex, Unlock Manager Queue_mutex}"
  by (cases "thread d")
    (auto simp: execute_step_def dispatch_fields leave_execute_def
      destroy_workers_def Let_def prim_defs split: if_splits)

lemma manager_events_balanced:
  "a \<noteq> Manager \<Longrightarrow> set es \<subseteq> {Lock Manager Table_mutex, Lock Manager Queue_mutex, Unlock Manager Table_mutex, Unlock Manager Queue_mutex} \<Longrightarrow> held_after a H es = H \<and> never_both a H es = (\<not> both H)"
  by (induction es arbitrary: H) auto

lemma pool_step_history:
  assumes "pool_step ops d d'" and "a \<noteq> Manager"
  shows "\<exists>es. history d' = history d @ es \<and> balanced a es"
  using assms(1)
proof (induction rule: pool_step.induct)
  case (manager d d')
  then obtain es where "history d' = history d @ es" and "set es \<subseteq> {Lock Manager Table_mutex, Lock Manager Queue_mutex, Unlock Manager Table_mutex, Unlock Manager Queue_mutex}"
    by (blast dest: execute_step_history)
  with manager_events_balanced [OF assms(2), of es "{}"] show ?case
    by (auto simp: balanced_def both_def)
next
  case (set_threads threads d outcome d')
  have "balanced a ([Lock Caller Table_mutex] @ replicate k Push_back
      @ [Unlock Caller Table_mutex])" for k
    by (simp add: balanced_def never_both_append held_after_append held_after_pushes
        never_both_pushes both_def)
  then have "balanced a (Lock Caller Table_mutex # replicate k Push_back
      @ [Unlock Caller Table_mutex])" for k
    by simp
  moreover have "balanced a []"
    by (simp add: balanced_def both_def)
  ultimately show ?case
    using setThreads_frame [OF set_threads] by (elim disjE exE conjE) auto
next
  case (push_task d task)
  show ?case
    by (simp add: pushTask_eq balanced_def both_def)
next
  case (push_task_list d tasks)
  show ?case
    by (simp add: pushTask_list_eq balanced_def both_def)
next
  case (destroy_pool d)
  show ?case
    by (simp add: destroy_eq balanced_def both_def)
next
  case (worker_callback free d)
  show ?case
    by (simp add: callback_def Let_def prim_defs balanced_def both_def)
next
  case (worker_internal i d w)
  show ?case
    by (simp add: balanced_def both_def)
next
  case (worker_take d task rest)
  show ?case
    by (simp add: balanced_def both_def)
qed

lemma reachable_balanced:
  assumes "reachable ops d" and "a \<noteq> Manager"
  shows "balanced a (history d)"
  using assms(1)
proof (induction rule: reachable.induct)
  case (init threads maxThreads' d)
  from ThreadPool_Inr(1) [OF this] show ?case
    by (simp add: constructed_def balanced_def held_after_pushes never_both_pushes both_def)
next
  case (step d d')
  from pool_step_history [OF step.hyps(2) assms(2)] step.IH show ?case
    by (auto intro: balanced_append)
qed

lemma holds_queue_table: "holds_queue pc \<Longrightarrow> holds_table pc"
  by (cases pc) simp_all

lemma pc_inv_queue: "pc_inv pc m q n tasks \<Longrightarrow> q = (if holds_queue pc then Some Manager else None)"
  by (cases pc) simp_all

lemma pc_inv_table: "pc_inv pc m q n tasks \<Longrightarrow> holds_table pc \<Longrightarrow> m = Some Manager"
  by (cases pc) simp_all

lemma pc_inv_owner: "pc_inv pc m q n tasks \<Longrightarrow> m = None \<or> m = Some Manager"
  by (cases pc) simp_all

subsection \<open>The order of the manager's locks\<close>

lemma lock_order_append:
  "lock_order a H (xs @ ys) = (lock_order a H xs \<and> lock_order a (held_after a H xs) ys)"
  by (induction xs arbitrary: H) simp_all

lemma foreign_events:
  "set es \<subseteq> {Lock Caller Table_mutex, Unlock Caller Table_mutex, Lock Producer Queue_mutex,
      Unlock Producer Queue_mutex, Push_back} \<Longrightarrow>
   lock_order Manager H es \<and> held_after Manager H es = H"
  by (induction es arbitrary: H) auto

text \<open>
  Every step of the manager keeps the order, and what the history says the manager holds
  is what the two mutexes say.
\<close>

lemma execute_step_lock_order:
  "manager_inv d \<Longrightarrow> execute_step ops d = Some d' \<Longrightarrow>
   \<exists>es. history d' = history d @ es
     \<and> lock_order Manager (manager_holds d) es
     \<and> held_after Manager (manager_holds d) es = manager_holds d'"
  by (cases "thread d")
    (auto simp: execute_step_def manager_inv_def manager_holds_def dispatch_fields
      leave_execute_def destroy_workers_def Let_def prim_defs split: if_splits)

lemma pool_step_lock_order:
  assumes "pool_step ops d d'" and "manager_inv d"
  shows "\<exists>es. history d' = history d @ es
     \<and> lock_order Manager (manager_holds d) es
     \<and> held_after Manager (manager_holds d) es = manager_holds d'"
  using assms
proof (induction rule: pool_step.induct)
  case (manager d d')
  then show ?case
    by (blast intro: execute_step_lock_order)
next
  case (set_threads threads d outcome d')
  from setThreads_frame [OF set_threads(1)] show ?case
  proof (elim disjE exE conjE)
    assume "d' = d"
    then show ?thesis
      by simp
  next
    fix k cap sig idle
    assume free: "mutex d = None" and d': "d' =
      d\<lparr>threadTable := threadTable d @ replicate k (Thread_new ops), table_capacity := cap,
        mutex := None, signal := sig, freeThreads := idle,
        history := history d @ Lock Caller Table_mutex # replicate k Push_back
          @ [Unlock Caller Table_mutex]\<rparr>"
    have "set (Lock Caller Table_mutex # replicate k Push_back @ [Unlock Caller Table_mutex])
        \<subseteq> {Lock Caller Table_mutex, Unlock Caller Table_mutex, Lock Producer Queue_mutex,
          Unlock Producer Queue_mutex, Push_back}"
      by auto
    from foreign_events [OF this, of "manager_holds d"] free show ?thesis
      unfolding d' by (simp add: manager_holds_def)
  qed
next
  case (push_task d task)
  from foreign_events [of "[Lock Producer Queue_mutex, Unlock Producer Queue_mutex]"
      "manager_holds d"] push_task(1)
  show ?case
    by (simp add: pushTask_eq manager_holds_def)
next
  case (push_task_list d tasks)
  from foreign_events [of "[Lock Producer Queue_mutex, Unlock Producer Queue_mutex]"
      "manager_holds d"] push_task_list(1)
  show ?case
    by (simp add: pushTask_list_eq manager_holds_def)
next
  case (destroy_pool d)
  show ?case
    by (simp add: destroy_eq manager_holds_def)
next
  case (worker_callback free d)
  show ?case
    by (simp add: callback_def Let_def prim_defs manager_holds_def)
next
  case (worker_internal i d w)
  show ?case
    by (simp add: manager_holds_def)
next
  case (worker_take d task rest)
  show ?case
    by (simp add: manager_holds_def)
qed

lemma reachable_lock_order:
  "reachable ops d \<Longrightarrow>
   lock_order Manager {} (history d) \<and> held_after Manager {} (history d) = manager_holds d"
proof (induction rule: reachable.induct)
  case (init threads maxThreads' d)
  have "set (replicate k Push_back)
      \<subseteq> {Lock Caller Table_mutex, Unlock Caller Table_mutex, Lock Producer Queue_mutex,
        Unlock Producer Queue_mutex, Push_back}" for k
    by auto
  from foreign_events [OF this, where H = "{}"] ThreadPool_Inr(1) [OF init] show ?case
    by (simp add: constructed_def manager_holds_def)
next
  case (step d d')
  from pool_step_lock_order [OF step.hyps(2) reachable_manager_inv [OF step.hyps(1)]]
  obtain es where "history d' = history d @ es"
    and "lock_order Manager (manager_holds d) es"
    and "held_after Manager (manager_holds d) es = manager_holds d'"
    by (elim exE conjE)
  with step.IH show ?case
    by (simp add: lock_order_append held_after_append)
qed

text \<open>Two concrete executions, used below to run the model.\<close>

lemma both_locks_held_run:
  "execute_run simple_ops 6 (constructed simple_ops 1 1) = Some both_locks_held"
  by (simp add: constructed_def execute_step_def both_locks_held_def simple_ops_def
      prim_defs)

lemma before_dispatch_run:
  "execute_run simple_ops 7 (pushTask 7 (constructed simple_ops 1 1)) = Some before_dispatch"
  "execute_run rejecting_ops 7 (pushTask 7 (constructed rejecting_ops 1 1))
     = Some before_dispatch"
  by (simp_all add: constructed_def pushTask_eq execute_step_def before_dispatch_def
      simple_ops_def rejecting_ops_def prim_defs)

lemma pushed_reachable:
  assumes "ThreadPool ops threads maxThreads' = Inr d"
  shows "reachable ops (pushTask task d)"
proof -
  from ThreadPool_Inr(1) [OF assms] have "queue_mutex d = None"
    by (simp add: constructed_def)
  then have "pool_step ops d (pushTask task d)"
    by (rule pool_step.push_task)
  with reachable.init [OF assms] show ?thesis
    by (rule reachable.step)
qed

lemma before_dispatch_reachable:
  "reachable simple_ops before_dispatch" "reachable rejecting_ops before_dispatch"
  by (rule execute_run_reachable [OF pushed_reachable [OF ThreadPool_simple_1_1]
        before_dispatch_run(1)])
    (rule execute_run_reachable [OF pushed_reachable [OF ThreadPool_rejecting]
        before_dispatch_run(2)])

text \<open>
  C2, as the code has it.  In every reachable configuration the manager holds the queue
  mutex exactly at the control points from line 256 to line 275, and there it holds the
  table mutex as well.  Throughout the history it has taken the table mutex only while not
  holding the queue mutex, the queue mutex only while holding the table mutex, and it has
  released the table mutex only after the queue mutex, also when it leaves \<^verbatim>\<open>execute\<close> by the
  \<^verbatim>\<open>return\<close> of line 265.  Between two steps no other actor owns a mutex, and neither a caller
  of \<^verbatim>\<open>setThreads\<close> nor a producer has held both mutexes at any point of the history.
\<close>

theorem lock_discipline:
  assumes "reachable ops d"
  shows "(queue_mutex d = Some Manager \<longrightarrow> mutex d = Some Manager)
    \<and> (queue_mutex d = Some Manager) = holds_queue (thread d)
    \<and> (holds_table (thread d) \<longrightarrow> mutex d = Some Manager)
    \<and> lock_order Manager {} (history d)
    \<and> held_after Manager {} (history d) = manager_holds d
    \<and> mutex d \<noteq> Some Caller \<and> mutex d \<noteq> Some Producer
    \<and> queue_mutex d \<noteq> Some Caller \<and> queue_mutex d \<noteq> Some Producer
    \<and> never_both Caller {} (history d)
    \<and> never_both Producer {} (history d)"
proof -
  from assms have inv: "pc_inv (thread d) (mutex d) (queue_mutex d)
      (length (threadTable d)) (taskQueue d \<noteq> [])"
    by (simp add: reachable_manager_inv [unfolded manager_inv_def])
  note q = pc_inv_queue [OF inv] and t = pc_inv_table [OF inv] and m = pc_inv_owner [OF inv]
  from reachable_balanced [OF assms, of Caller] reachable_balanced [OF assms, of Producer]
  have "never_both Caller {} (history d)" and "never_both Producer {} (history d)"
    by (simp_all add: balanced_def)
  with q t m reachable_lock_order [OF assms] show ?thesis
    by (auto dest: holds_queue_table)
qed

theorem lock_discipline_witness:
  "reachable simple_ops before_dispatch
   \<and> queue_mutex before_dispatch = Some Manager
   \<and> mutex before_dispatch = Some Manager
   \<and> holds_queue (thread before_dispatch)
   \<and> lock_order Manager {} (history before_dispatch)
   \<and> held_after Manager {} (history before_dispatch) = {Table_mutex, Queue_mutex}
   \<and> never_both Caller {} (history before_dispatch)
   \<and> never_both Producer {} (history before_dispatch)"
proof -
  have "queue_mutex before_dispatch = Some Manager"
    and "manager_holds before_dispatch = {Table_mutex, Queue_mutex}"
    by (auto simp: before_dispatch_def manager_holds_def)
  with lock_discipline [OF before_dispatch_reachable(1)] before_dispatch_reachable(1)
  show ?thesis
    by simp
qed

text \<open>
  The claim C2 as it is worded fails: after six steps of the manager of a fresh pool with
  one worker, the manager holds the table mutex and the queue mutex at once.
\<close>

theorem manager_holds_both_counterexample:
  "ThreadPool simple_ops 1 1 = Inr (constructed simple_ops 1 1)
   \<and> execute_run simple_ops 6 (constructed simple_ops 1 1) = Some both_locks_held
   \<and> reachable simple_ops both_locks_held
   \<and> mutex both_locks_held = Some Manager
   \<and> queue_mutex both_locks_held = Some Manager
   \<and> \<not> never_both Manager {} (history both_locks_held)"
proof -
  have "reachable simple_ops (constructed simple_ops 1 1)"
    using ThreadPool_simple_1_1 by (rule reachable.init)
  from this both_locks_held_run have "reachable simple_ops both_locks_held"
    by (rule execute_run_reachable)
  with both_locks_held_run ThreadPool_simple_1_1 show ?thesis
    by (simp add: both_locks_held_def both_def)
qed

section \<open>The dispatch attempt\<close>

lemma dispatch_handed:
  "fst (hand_off ops (hd (taskQueue d)) (threadTable d ! i)) \<Longrightarrow>
     taskQueue (dispatch ops i d) = tl (taskQueue d)
     \<and> freeThreads (dispatch ops i d) = freeThreads d - 1"
  by (simp add: dispatch_def Let_def case_prod_beta)

lemma dispatch_rejected:
  "\<not> fst (hand_off ops (hd (taskQueue d)) (threadTable d ! i)) \<Longrightarrow>
     taskQueue (dispatch ops i d) = taskQueue d
     \<and> freeThreads (dispatch ops i d) = freeThreads d"
  by (simp add: dispatch_def Let_def case_prod_beta)

lemma dispatch_table:
  "threadTable (dispatch ops i d)
     = (threadTable d)[i := snd (hand_off ops (hd (taskQueue d)) (threadTable d ! i))]"
  by (simp add: dispatch_def Let_def case_prod_beta)

text \<open>
  C7.  Whenever the manager stands at the dispatch attempt of lines 269--274 for the worker
  at position \<open>i\<close>, the queue is not empty and the worker exists, and the manager can take
  the step.  If the hand-off succeeds (\<^verbatim>\<open>configure\<close> and \<^verbatim>\<open>start\<close> both return true), exactly
  the front task leaves the queue and the idle counter goes down by one.  If it fails, the
  queue and the idle counter stay as they are.  Either way no other worker is touched, the
  queue mutex is released next and the scan goes on with the worker at position \<open>i + 1\<close>.
\<close>

theorem dispatch_attempt:
  assumes "reachable ops d" and "thread d = L269 i"
  shows "taskQueue d \<noteq> [] \<and> i < length (threadTable d)
    \<and> execute_step ops d = Some ((dispatch ops i d)\<lparr>thread := L275 i\<rparr>)
    \<and> (fst (hand_off ops (hd (taskQueue d)) (threadTable d ! i)) \<longrightarrow>
          hd (taskQueue d) # taskQueue (dispatch ops i d) = taskQueue d
        \<and> getTasks (dispatch ops i d) + 1 = getTasks d
        \<and> getFreeThreads (dispatch ops i d) = getFreeThreads d - 1)
    \<and> (\<not> fst (hand_off ops (hd (taskQueue d)) (threadTable d ! i)) \<longrightarrow>
          taskQueue (dispatch ops i d) = taskQueue d
        \<and> getFreeThreads (dispatch ops i d) = getFreeThreads d)
    \<and> (\<forall>j. j \<noteq> i \<longrightarrow> threadTable (dispatch ops i d) ! j = threadTable d ! j)
    \<and> execute_step ops ((dispatch ops i d)\<lparr>thread := L275 i\<rparr>)
        = Some ((unlock Manager Queue_mutex (dispatch ops i d))\<lparr>thread := L249 (i + 1)\<rparr>)"
proof -
  from assms have inv: "taskQueue d \<noteq> []" "i < length (threadTable d)"
    using reachable_manager_inv [of ops d] by (simp_all add: manager_inv_def)
  from inv assms(2) have step: "execute_step ops d = Some ((dispatch ops i d)\<lparr>thread := L275 i\<rparr>)"
    by (simp add: execute_step_def)
  have next_step: "execute_step ops ((dispatch ops i d)\<lparr>thread := L275 i\<rparr>)
        = Some ((unlock Manager Queue_mutex (dispatch ops i d))\<lparr>thread := L249 (i + 1)\<rparr>)"
    by (simp add: execute_step_def unlock_def)
  have others: "\<forall>j. j \<noteq> i \<longrightarrow> threadTable (dispatch ops i d) ! j = threadTable d ! j"
    by (simp add: dispatch_table)
  from inv(1) have front: "hd (taskQueue d) # tl (taskQueue d) = taskQueue d"
    and size: "length (tl (taskQueue d)) + 1 = length (taskQueue d)"
    by simp_all
  from inv step next_step others front size show ?thesis
    by (simp add: dispatch_handed dispatch_rejected getTasks_def getFreeThreads_def)
qed

theorem dispatch_attempt_witness:
  "taskQueue before_dispatch = [7] \<and> getFreeThreads before_dispatch = 1
   \<and> taskQueue (dispatch simple_ops 0 before_dispatch) = []
   \<and> getFreeThreads (dispatch simple_ops 0 before_dispatch) = 0
   \<and> threadTable (dispatch simple_ops 0 before_dispatch) = [Some 7]
   \<and> taskQueue (dispatch rejecting_ops 0 before_dispatch) = [7]
   \<and> getFreeThreads (dispatch rejecting_ops 0 before_dispatch) = 1
   \<and> thread (the (execute_step rejecting_ops before_dispatch)) = L275 0"
proof -
  have pc: "thread before_dispatch = L269 0"
    by (simp add: before_dispatch_def)
  have handed: "fst (hand_off simple_ops (hd (taskQueue before_dispatch)) (threadTable before_dispatch ! 0))"
    by (simp add: before_dispatch_def hand_off_def simple_ops_def)
  have rejected: "\<not> fst (hand_off rejecting_ops (hd (taskQueue before_dispatch)) (threadTable before_dispatch ! 0))"
    by (simp add: before_dispatch_def hand_off_def simple_ops_def rejecting_ops_def)
  have state: "taskQueue before_dispatch = [7]" "getFreeThreads before_dispatch = 1"
    by (simp_all add: before_dispatch_def getFreeThreads_def)
  have table: "threadTable (dispatch simple_ops 0 before_dispatch) = [Some 7]"
    by (simp add: dispatch_table before_dispatch_def hand_off_def simple_ops_def)
  from dispatch_attempt [OF before_dispatch_reachable(1) pc]
    dispatch_attempt [OF before_dispatch_reachable(2) pc]
    handed rejected state table
  show ?thesis
    by simp
qed

section \<open>The capacity bound\<close>

text \<open>A request that is not below the current number of workers keeps the table within the
  capacity, however the call ends.\<close>

lemma growth_keeps_capacity:
  assumes "setThreads ops n d = Some (outcome, d')" and "\<not> n < getThreads d"
    and "vector_inv ops d" and "length (threadTable d) \<le> unat (getMaxThreads d)"
  shows "length (threadTable d') \<le> unat (getMaxThreads d')"
proof (cases "n \<le> getMaxThreads d \<and> n \<noteq> getThreads d")
  case False
  then have "setThreads ops n d = Some (Inr False, d)"
    by (auto simp: setThreads_above_max setThreads_same not_le)
  with assms(1,4) show ?thesis
    by simp
next
  case True
  with assms(1) have free: "mutex d = None"
    by (cases "mutex d = None") (simp_all add: setThreads_blocked)
  from assms(2) have "getThreads d \<le> n"
    by simp
  then have count: "unat (n - getThreads d) = unat n - length (threadTable d)"
    and "length (threadTable d) \<le> unat n"
    by (simp_all add: unat_sub word_le_nat_alt vector_size_exact [OF assms(3)])
  moreover from True have "unat n \<le> unat (getMaxThreads d)"
    by (simp add: word_le_nat_alt)
  moreover from True free setThreads_entered [of n d ops] assms(1)
  obtain k where "length (threadTable d') = length (threadTable d) + k"
    and "k \<le> unat (n - getThreads d)" and "getMaxThreads d' = getMaxThreads d"
    by (elim exE conjE) (auto simp: getMaxThreads_def)
  ultimately show ?thesis
    by simp
qed

text \<open>How a request below the current number of workers ends, once it has the mutex.\<close>

lemma setThreads_shrink:
  assumes "n < getThreads d" and "n \<le> getMaxThreads d" and "vector_inv ops d"
    and "mutex d = None"
  shows "\<exists>e. setThreads ops n d = Some (Inl e,
    unlock Caller Table_mutex
      (snd (push_back_loop ops 0 (n - getThreads d) (lock Caller Table_mutex d))))"
proof -
  define d1 where "d1 = lock Caller Table_mutex d"
  from assms(1) have ne: "n \<noteq> getThreads d"
    by simp
  from assms(1) have "unat n < unat (getThreads d)"
    by (simp add: word_less_nat_alt)
  with assms(3) have "unat n \<le> table_capacity d1"
    and "table_capacity d1 \<le> unat (vector_max_size ops)"
    by (simp_all add: vector_size_exact [OF assms(3)] vector_inv_def d1_def lock_def)
  then have reserved: "reserve ops n d1 = (None, d1)"
    by (rule reserve_within)
  from assms(3) have inv: "vector_inv ops d1"
    by (simp add: vector_inv_def d1_def lock_def)
  from push_back_loop_overflow [OF word_zero_le inv shrink_wraps [OF assms(1,3), folded d1_def]]
  obtain e where "fst (push_back_loop ops 0 (n - getThreads d) d1) = Some e"
    by blast
  then have "setThreads ops n d = Some (Inl e,
      unlock Caller Table_mutex (snd (push_back_loop ops 0 (n - getThreads d) d1)))"
    unfolding setThreads_unfold [OF assms(2) ne assms(4)] d1_def [symmetric] reserved
    by (cases "push_back_loop ops 0 (n - getThreads d) d1") simp
  then show ?thesis
    unfolding d1_def ..
qed

text \<open>
  C4 (the table never exceeds the capacity).  The source states the bound in its comments
  (lines 41 and 104) and checks it in line 105, but a request below the current number of
  workers breaks it: the unsigned difference wraps around and the growth loop runs until an
  exception ends it.  On a platform that supplies workers and storage for one table size
  beyond the capacity, the call is left by the exception with more workers in the table
  than the capacity allows, and \<^verbatim>\<open>getThreads\<close> and \<^verbatim>\<open>getMaxThreads\<close> report it.  This is the
  defect of C1 seen from the invariant.
\<close>

theorem shrink_request_exceeds_capacity:
  assumes "reachable ops d" and "mutex d = None"
    and "n < getThreads d" and "n \<le> getMaxThreads d"
    and "unat (getMaxThreads d) < unat (vector_max_size ops)"
    and "\<forall>k. k \<le> unat (getMaxThreads d) \<longrightarrow>
      Thread_create ops k = None \<and> Vector_allocate ops (Suc k)"
  shows "\<exists>e d'. setThreads ops n d = Some (Inl e, d')
    \<and> reachable ops d'
    \<and> getMaxThreads d' = getMaxThreads d
    \<and> unat (getThreads d') = length (threadTable d')
    \<and> getMaxThreads d' < getThreads d'"
proof -
  define d' where "d' = unlock Caller Table_mutex
      (snd (push_back_loop ops 0 (n - getThreads d) (lock Caller Table_mutex d)))"
  note inv = reachable_vector_inv [OF assms(1)]
  from setThreads_shrink [OF assms(3,4) inv assms(2), folded d'_def]
  obtain e where call: "setThreads ops n d = Some (Inl e, d')"
    by (elim exE)
  then have "pool_step ops d d'"
    by (rule pool_step.set_threads)
  with assms(1) have reach: "reachable ops d'"
    by (rule reachable.step)
  from setThreads_frame [OF call] have same: "getMaxThreads d' = getMaxThreads d"
    by (auto simp: getMaxThreads_def)
  note size = vector_size_exact [OF reachable_vector_inv [OF reach]]
  have "unat (getMaxThreads d)
      < length (threadTable (snd (push_back_loop ops 0 (n - getThreads d)
          (lock Caller Table_mutex d))))"
  proof (rule push_back_loop_progress [OF word_zero_le _ assms(5)])
    show "Thread_create ops k = None \<and> Vector_allocate ops (Suc k)"
      if "k \<le> unat (getMaxThreads d)" for k
      using that assms(6) by simp
    from shrink_wraps [OF assms(3) inv] assms(5)
    show "unat (getMaxThreads d)
        < length (threadTable (lock Caller Table_mutex d)) + unat (n - getThreads d - 0)"
      by simp
  qed
  then have "unat (getMaxThreads d') < unat (getThreads d')"
    unfolding size same by (simp add: d'_def unlock_def)
  then have "getMaxThreads d' < getThreads d'"
    by (simp add: word_less_nat_alt)
  with call reach same size show ?thesis
    by - (rule exI [of _ e], rule exI [of _ d'], intro conjI)
qed

theorem shrink_request_exceeds_capacity_witness:
  "ThreadPool limited_ops 2 4 = Inr (constructed limited_ops 2 4)
   \<and> reachable limited_ops (constructed limited_ops 2 4)
   \<and> getThreads (constructed limited_ops 2 4) = 2
   \<and> getMaxThreads (constructed limited_ops 2 4) = 4
   \<and> setThreads limited_ops 1 (constructed limited_ops 2 4)
       = Some (Inl System_error, over_capacity)
   \<and> reachable limited_ops over_capacity
   \<and> getThreads over_capacity = 6
   \<and> getMaxThreads over_capacity = 4"
proof -
  have 1: "reachable limited_ops (constructed limited_ops 2 4)"
    using ThreadPool_limited by (rule reachable.init)
  have 2: "mutex (constructed limited_ops 2 4) = None"
    by (simp add: constructed_def)
  have 3: "(1 :: size_type) < getThreads (constructed limited_ops 2 4)"
    by (simp add: constructed_def getThreads_def vector_size_def)
  have 4: "(1 :: size_type) \<le> getMaxThreads (constructed limited_ops 2 4)"
    by (simp add: constructed_def getMaxThreads_def)
  have 5: "unat (getMaxThreads (constructed limited_ops 2 4))
      < unat (vector_max_size limited_ops)"
    by (simp add: constructed_def getMaxThreads_def limited_ops_def simple_ops_def)
  have 6: "\<forall>k. k \<le> unat (getMaxThreads (constructed limited_ops 2 4)) \<longrightarrow>
      Thread_create limited_ops k = None \<and> Vector_allocate limited_ops (Suc k)"
    by (simp add: constructed_def getMaxThreads_def limited_ops_def simple_ops_def)
  have run: "setThreads limited_ops 1 (constructed limited_ops 2 4)
      = Some (Inl System_error, over_capacity)"
    unfolding limited_shrink_run
    by (simp add: over_capacity_def constructed_def limited_ops_def simple_ops_def)
  from shrink_request_exceeds_capacity [OF 1 2 3 4 5 6] run
  have reached: "reachable limited_ops over_capacity"
    by auto
  have fields: "getThreads (constructed limited_ops 2 4) = 2"
    "getMaxThreads (constructed limited_ops 2 4) = 4"
    "getThreads over_capacity = 6" "getMaxThreads over_capacity = 4"
    by (simp_all add: constructed_def over_capacity_def getThreads_def getMaxThreads_def
        vector_size_def)
  from ThreadPool_limited 1 run reached fields show ?thesis
    by simp
qed

end
